theory Spec2Isabelle
  imports Main "HOL-Library.Word"
begin

unbundle bit_operations_syntax

section \<open>Values of the JavaScript runtime\<close>

text \<open>
  A JavaScript string is a sequence of UTF-16 code units; a \<open>Buffer\<close> is a sequence
  of bytes. A request field or an environment variable that is absent reads as
  \<open>undefined\<close>. Exceptions are values: a function that may throw returns
  \<open>js_error + 'a\<close>, with \<open>Inl\<close> for the exception thrown.
\<close>

type_synonym byte = "8 word"
type_synonym u16 = "16 word"
type_synonym u64 = "64 word"
type_synonym js_string = "u16 list"
type_synonym buffer = "byte list"

datatype js_value = Undefined | Str js_string

datatype js_error =
    Error string
  | TypeError string
  | RangeError string

definition ascii :: "string \<Rightarrow> js_string" where
  "ascii s = map (\<lambda>c. of_nat (of_char c)) s"

text \<open>\<open>!v\<close> of JavaScript, on the values an environment variable can take.\<close>

fun falsy :: "js_value \<Rightarrow> bool" where
  "falsy Undefined = True"
| "falsy (Str s) = (s = [])"

text \<open>\<open>String.prototype.substring(start, end)\<close>: both indices are clamped to the
  length and swapped when out of order.\<close>

definition substring :: "nat \<Rightarrow> nat \<Rightarrow> js_string \<Rightarrow> js_string" where
  "substring start end s =
     (let n = length s; a = min start n; b = min end n
      in take (max a b - min a b) (drop (min a b) s))"

function chunks :: "nat \<Rightarrow> 'a list \<Rightarrow> 'a list list" where
  "chunks n xs = (if n = 0 \<or> xs = [] then [] else take n xs # chunks n (drop n xs))"
  by pat_completeness auto
termination
  by (relation "measure (\<lambda>(n, xs). length xs)") auto

declare chunks.simps [simp del]

section \<open>Text encodings of \<open>Buffer\<close>\<close>

subsection \<open>UTF-8 encoding of a string\<close>

text \<open>
  \<open>Buffer.from(s, 'utf8')\<close>, also used by \<open>hash.update(s)\<close>, by
  \<open>cipher.update(s, 'utf8', _)\<close> and for a string key or IV: a surrogate pair is one
  code point of four bytes, and a surrogate without its partner is written as U+FFFD
  (\<open>EF BF BD\<close>).
\<close>

definition is_high_surrogate :: "u16 \<Rightarrow> bool" where
  "is_high_surrogate u = (0xD800 \<le> u \<and> u \<le> 0xDBFF)"

definition is_low_surrogate :: "u16 \<Rightarrow> bool" where
  "is_low_surrogate u = (0xDC00 \<le> u \<and> u \<le> 0xDFFF)"

definition code_point_of_pair :: "u16 \<Rightarrow> u16 \<Rightarrow> nat" where
  "code_point_of_pair hi lo = 0x10000 + (unat hi - 0xD800) * 0x400 + (unat lo - 0xDC00)"

definition utf8_bytes :: "nat \<Rightarrow> buffer" where
  "utf8_bytes cp =
     (if cp < 0x80 then [of_nat cp]
      else if cp < 0x800 then [of_nat (0xC0 + cp div 0x40), of_nat (0x80 + cp mod 0x40)]
      else if cp < 0x10000 then
        [of_nat (0xE0 + cp div 0x1000), of_nat (0x80 + cp div 0x40 mod 0x40),
         of_nat (0x80 + cp mod 0x40)]
      else
        [of_nat (0xF0 + cp div 0x40000), of_nat (0x80 + cp div 0x1000 mod 0x40),
         of_nat (0x80 + cp div 0x40 mod 0x40), of_nat (0x80 + cp mod 0x40)])"

definition replacement_bytes :: buffer where
  "replacement_bytes = [0xEF, 0xBF, 0xBD]"

fun utf8_encode :: "js_string \<Rightarrow> buffer" where
  "utf8_encode [] = []"
| "utf8_encode [u] =
     (if is_high_surrogate u \<or> is_low_surrogate u then replacement_bytes
      else utf8_bytes (unat u))"
| "utf8_encode (u # v # us) =
     (if is_high_surrogate u \<and> is_low_surrogate v
        then utf8_bytes (code_point_of_pair u v) @ utf8_encode us
      else if is_high_surrogate u \<or> is_low_surrogate u
        then replacement_bytes @ utf8_encode (v # us)
      else utf8_bytes (unat u) @ utf8_encode (v # us))"

subsection \<open>Hexadecimal\<close>

text \<open>\<open>buf.toString('hex')\<close> and \<open>digest('hex')\<close>: two lowercase digits a byte.\<close>

definition hex_digit :: "byte \<Rightarrow> u16" where
  "hex_digit n = (if n < 10 then 0x30 + ucast n else 0x57 + ucast n)"

definition hex_encode :: "buffer \<Rightarrow> js_string" where
  "hex_encode bs = concat (map (\<lambda>b. [hex_digit (drop_bit 4 b), hex_digit (take_bit 4 b)]) bs)"

text \<open>
  Hex decoding as \<open>decipher.update(s, 'hex', _)\<close> does it: a string of odd length is
  rejected before decoding (see \<open>decipher_update\<close> below); decoding itself reads two
  digits a byte, looks only at the low byte of each code unit, takes digits of either
  case, and stops without an error at the first pair that is not two hex digits.
\<close>

definition unhex :: "u16 \<Rightarrow> byte option" where
  "unhex c =
     (let x = (ucast c :: byte)
      in if 0x30 \<le> x \<and> x \<le> 0x39 then Some (x - 0x30)
         else if 0x41 \<le> x \<and> x \<le> 0x46 then Some (x - 0x37)
         else if 0x61 \<le> x \<and> x \<le> 0x66 then Some (x - 0x57)
         else None)"

fun hex_decode :: "js_string \<Rightarrow> buffer" where
  "hex_decode (a # b # cs) =
     (case unhex a of
        None \<Rightarrow> []
      | Some hi \<Rightarrow>
          (case unhex b of
             None \<Rightarrow> []
           | Some lo \<Rightarrow> (push_bit 4 hi OR lo) # hex_decode cs))"
| "hex_decode _ = []"

subsection \<open>Base64\<close>

text \<open>\<open>buf.toString('base64')\<close>: the standard alphabet, padded with \<open>=\<close>.\<close>

definition base64_alphabet :: js_string where
  "base64_alphabet = ascii ''ABCDEFGHIJKLMNOPQRSTUVWXYZabcdefghijklmnopqrstuvwxyz0123456789+/''"

definition base64_char :: "byte \<Rightarrow> u16" where
  "base64_char n = base64_alphabet ! unat n"

definition equals_sign :: u16 where
  "equals_sign = 0x3D"

fun base64_encode :: "buffer \<Rightarrow> js_string" where
  "base64_encode (a # b # c # rest) =
     [base64_char (drop_bit 2 a),
      base64_char (push_bit 4 (take_bit 2 a) OR drop_bit 4 b),
      base64_char (push_bit 2 (take_bit 4 b) OR drop_bit 6 c),
      base64_char (take_bit 6 c)] @ base64_encode rest"
| "base64_encode [a, b] =
     [base64_char (drop_bit 2 a),
      base64_char (push_bit 4 (take_bit 2 a) OR drop_bit 4 b),
      base64_char (push_bit 2 (take_bit 4 b)),
      equals_sign]"
| "base64_encode [a] =
     [base64_char (drop_bit 2 a),
      base64_char (push_bit 4 (take_bit 2 a)),
      equals_sign, equals_sign]"
| "base64_encode [] = []"

text \<open>
  \<open>Buffer.from(s, 'base64')\<close> never throws on a string. It looks only at the low byte
  of each code unit, stops at the first \<open>=\<close>, skips every character outside the
  alphabet (which also holds \<open>-\<close> and \<open>_\<close> of the URL-safe variant), and turns each
  four digits into three bytes; two or three left-over digits give one or two bytes,
  their unused low bits dropped.
\<close>

definition unbase64 :: "u16 \<Rightarrow> byte option" where
  "unbase64 c =
     (let x = (ucast c :: byte)
      in if 0x41 \<le> x \<and> x \<le> 0x5A then Some (x - 0x41)
         else if 0x61 \<le> x \<and> x \<le> 0x7A then Some (x - 0x47)
         else if 0x30 \<le> x \<and> x \<le> 0x39 then Some (x + 4)
         else if x = 0x2B \<or> x = 0x2D then Some 62
         else if x = 0x2F \<or> x = 0x5F then Some 63
         else None)"

fun base64_groups :: "byte list \<Rightarrow> buffer" where
  "base64_groups (a # b # c # d # rest) =
     [push_bit 2 a OR drop_bit 4 b, push_bit 4 b OR drop_bit 2 c, push_bit 6 c OR d]
       @ base64_groups rest"
| "base64_groups [a, b, c] = [push_bit 2 a OR drop_bit 4 b, push_bit 4 b OR drop_bit 2 c]"
| "base64_groups [a, b] = [push_bit 2 a OR drop_bit 4 b]"
| "base64_groups _ = []"

definition base64_decode :: "js_string \<Rightarrow> buffer" where
  "base64_decode s =
     base64_groups (List.map_filter unbase64 (takeWhile (\<lambda>c. (ucast c :: byte) \<noteq> 0x3D) s))"

subsection \<open>UTF-8 decoding\<close>

text \<open>
  \<open>buf.toString('utf8')\<close> and the \<open>StringDecoder\<close> behind
  \<open>decipher.update(_, _, 'utf8')\<close> and \<open>decipher.final('utf8')\<close>: the decoder of the
  Encoding Standard. It never fails: every maximal ill-formed part of the input becomes
  one U+FFFD. It reads byte after byte and keeps an unfinished character between two
  writes, so that the text of two chunks is the text of their concatenation.
\<close>

record utf8_decoder =
  code_point :: nat
  bytes_needed :: nat
  lower_boundary :: nat
  upper_boundary :: nat

definition utf8_decoder_init :: utf8_decoder where
  "utf8_decoder_init =
     \<lparr>code_point = 0, bytes_needed = 0, lower_boundary = 0x80, upper_boundary = 0xBF\<rparr>"

definition utf16_units :: "nat \<Rightarrow> js_string" where
  "utf16_units cp =
     (if cp < 0x10000 then [of_nat cp]
      else [of_nat (0xD800 + (cp - 0x10000) div 0x400), of_nat (0xDC00 + (cp - 0x10000) mod 0x400)])"

definition utf8_lead :: "nat \<Rightarrow> js_string \<times> utf8_decoder" where
  "utf8_lead x =
     (if x < 0x80 then ([of_nat x], utf8_decoder_init)
      else if 0xC2 \<le> x \<and> x \<le> 0xDF then
        ([], \<lparr>code_point = x mod 0x20, bytes_needed = 1,
               lower_boundary = 0x80, upper_boundary = 0xBF\<rparr>)
      else if 0xE0 \<le> x \<and> x \<le> 0xEF then
        ([], \<lparr>code_point = x mod 0x10, bytes_needed = 2,
               lower_boundary = (if x = 0xE0 then 0xA0 else 0x80),
               upper_boundary = (if x = 0xED then 0x9F else 0xBF)\<rparr>)
      else if 0xF0 \<le> x \<and> x \<le> 0xF4 then
        ([], \<lparr>code_point = x mod 0x08, bytes_needed = 3,
               lower_boundary = (if x = 0xF0 then 0x90 else 0x80),
               upper_boundary = (if x = 0xF4 then 0x8F else 0xBF)\<rparr>)
      else ([0xFFFD], utf8_decoder_init))"

definition utf8_step :: "utf8_decoder \<Rightarrow> byte \<Rightarrow> js_string \<times> utf8_decoder" where
  "utf8_step d b =
     (let x = unat b
      in if bytes_needed d = 0 then utf8_lead x
         else if lower_boundary d \<le> x \<and> x \<le> upper_boundary d then
           (let cp = code_point d * 0x40 + x mod 0x40
            in if bytes_needed d = 1 then (utf16_units cp, utf8_decoder_init)
               else ([], \<lparr>code_point = cp, bytes_needed = bytes_needed d - 1,
                            lower_boundary = 0x80, upper_boundary = 0xBF\<rparr>))
         else (0xFFFD # fst (utf8_lead x), snd (utf8_lead x)))"

fun utf8_write :: "utf8_decoder \<Rightarrow> buffer \<Rightarrow> js_string \<times> utf8_decoder" where
  "utf8_write d [] = ([], d)"
| "utf8_write d (b # bs) =
     (let (out, d') = utf8_step d b; (rest, d'') = utf8_write d' bs
      in (out @ rest, d''))"

definition utf8_end :: "utf8_decoder \<Rightarrow> js_string" where
  "utf8_end d = (if bytes_needed d = 0 then [] else [0xFFFD])"

definition utf8_decode :: "buffer \<Rightarrow> js_string" where
  "utf8_decode bs = (let (out, d) = utf8_write utf8_decoder_init bs in out @ utf8_end d)"

section \<open>SHA-512 (\<open>crypto.createHash('sha512')\<close>)\<close>

text \<open>The hash of FIPS 180-4 on a message of whole bytes.\<close>

type_synonym sha_state = "u64 \<times> u64 \<times> u64 \<times> u64 \<times> u64 \<times> u64 \<times> u64 \<times> u64"

definition K512 :: "u64 list" where
  "K512 =
    [
     0x428A2F98D728AE22, 0x7137449123EF65CD, 0xB5C0FBCFEC4D3B2F, 0xE9B5DBA58189DBBC,
     0x3956C25BF348B538, 0x59F111F1B605D019, 0x923F82A4AF194F9B, 0xAB1C5ED5DA6D8118,
     0xD807AA98A3030242, 0x12835B0145706FBE, 0x243185BE4EE4B28C, 0x550C7DC3D5FFB4E2,
     0x72BE5D74F27B896F, 0x80DEB1FE3B1696B1, 0x9BDC06A725C71235, 0xC19BF174CF692694,
     0xE49B69C19EF14AD2, 0xEFBE4786384F25E3, 0x0FC19DC68B8CD5B5, 0x240CA1CC77AC9C65,
     0x2DE92C6F592B0275, 0x4A7484AA6EA6E483, 0x5CB0A9DCBD41FBD4, 0x76F988DA831153B5,
     0x983E5152EE66DFAB, 0xA831C66D2DB43210, 0xB00327C898FB213F, 0xBF597FC7BEEF0EE4,
     0xC6E00BF33DA88FC2, 0xD5A79147930AA725, 0x06CA6351E003826F, 0x142929670A0E6E70,
     0x27B70A8546D22FFC, 0x2E1B21385C26C926, 0x4D2C6DFC5AC42AED, 0x53380D139D95B3DF,
     0x650A73548BAF63DE, 0x766A0ABB3C77B2A8, 0x81C2C92E47EDAEE6, 0x92722C851482353B,
     0xA2BFE8A14CF10364, 0xA81A664BBC423001, 0xC24B8B70D0F89791, 0xC76C51A30654BE30,
     0xD192E819D6EF5218, 0xD69906245565A910, 0xF40E35855771202A, 0x106AA07032BBD1B8,
     0x19A4C116B8D2D0C8, 0x1E376C085141AB53, 0x2748774CDF8EEB99, 0x34B0BCB5E19B48A8,
     0x391C0CB3C5C95A63, 0x4ED8AA4AE3418ACB, 0x5B9CCA4F7763E373, 0x682E6FF3D6B2B8A3,
     0x748F82EE5DEFB2FC, 0x78A5636F43172F60, 0x84C87814A1F0AB72, 0x8CC702081A6439EC,
     0x90BEFFFA23631E28, 0xA4506CEBDE82BDE9, 0xBEF9A3F7B2C67915, 0xC67178F2E372532B,
     0xCA273ECEEA26619C, 0xD186B8C721C0C207, 0xEADA7DD6CDE0EB1E, 0xF57D4F7FEE6ED178,
     0x06F067AA72176FBA, 0x0A637DC5A2C898A6, 0x113F9804BEF90DAE, 0x1B710B35131C471B,
     0x28DB77F523047D84, 0x32CAAB7B40C72493, 0x3C9EBE0A15C9BEBC, 0x431D67C49C100D4C,
     0x4CC5D4BECB3E42B6, 0x597F299CFC657E2A, 0x5FCB6FAB3AD6FAEC, 0x6C44198C4A475817]"

definition H512 :: sha_state where
  "H512 =
    (0x6A09E667F3BCC908,
     0xBB67AE8584CAA73B,
     0x3C6EF372FE94F82B,
     0xA54FF53A5F1D36F1,
     0x510E527FADE682D1,
     0x9B05688C2B3E6C1F,
     0x1F83D9ABFB41BD6B,
     0x5BE0CD19137E2179)"

definition rotr64 :: "nat \<Rightarrow> u64 \<Rightarrow> u64" where
  "rotr64 n x = drop_bit n x OR push_bit (64 - n) x"

definition Ch :: "u64 \<Rightarrow> u64 \<Rightarrow> u64 \<Rightarrow> u64" where
  "Ch x y z = (x AND y) XOR (NOT x AND z)"

definition Maj :: "u64 \<Rightarrow> u64 \<Rightarrow> u64 \<Rightarrow> u64" where
  "Maj x y z = (x AND y) XOR (x AND z) XOR (y AND z)"

definition bsig0 :: "u64 \<Rightarrow> u64" where
  "bsig0 x = rotr64 28 x XOR rotr64 34 x XOR rotr64 39 x"

definition bsig1 :: "u64 \<Rightarrow> u64" where
  "bsig1 x = rotr64 14 x XOR rotr64 18 x XOR rotr64 41 x"

definition ssig0 :: "u64 \<Rightarrow> u64" where
  "ssig0 x = rotr64 1 x XOR rotr64 8 x XOR drop_bit 7 x"

definition ssig1 :: "u64 \<Rightarrow> u64" where
  "ssig1 x = rotr64 19 x XOR rotr64 61 x XOR drop_bit 6 x"

definition be64 :: "buffer \<Rightarrow> u64" where
  "be64 bs = foldl (\<lambda>acc b. push_bit 8 acc OR ucast b) 0 bs"

definition be_bytes :: "nat \<Rightarrow> 'a::len word \<Rightarrow> buffer" where
  "be_bytes n x = map (\<lambda>i. ucast (drop_bit (8 * (n - 1 - i)) x)) [0..<n]"

definition sha512_pad :: "buffer \<Rightarrow> buffer" where
  "sha512_pad m =
     m @ [0x80] @ replicate ((239 - length m mod 128) mod 128) 0 @ be_bytes 16 (of_nat (8 * length m) :: 128 word)"

fun sha512_schedule :: "nat \<Rightarrow> u64 list \<Rightarrow> u64 list" where
  "sha512_schedule 0 w = w"
| "sha512_schedule (Suc n) w =
     (let t = length w
      in sha512_schedule n
           (w @ [ssig1 (w ! (t - 2)) + w ! (t - 7) + ssig0 (w ! (t - 15)) + w ! (t - 16)]))"

fun sha512_round :: "sha_state \<Rightarrow> u64 \<times> u64 \<Rightarrow> sha_state" where
  "sha512_round (a, b, c, d, e, f, g, h) (k, w) =
     (let t1 = h + bsig1 e + Ch e f g + k + w;
          t2 = bsig0 a + Maj a b c
      in (t1 + t2, a, b, c, d + t1, e, f, g))"

fun sha512_add :: "sha_state \<Rightarrow> sha_state \<Rightarrow> sha_state" where
  "sha512_add (a, b, c, d, e, f, g, h) (a', b', c', d', e', f', g', h') =
     (a + a', b + b', c + c', d + d', e + e', f + f', g + g', h + h')"

definition sha512_block :: "sha_state \<Rightarrow> buffer \<Rightarrow> sha_state" where
  "sha512_block hs blk =
     (let w = sha512_schedule 64 (map be64 (chunks 8 blk))
      in sha512_add hs (foldl sha512_round hs (zip K512 w)))"

fun sha512_output :: "sha_state \<Rightarrow> buffer" where
  "sha512_output (a, b, c, d, e, f, g, h) =
     concat (map (be_bytes 8) [a, b, c, d, e, f, g, h])"

definition sha512 :: "buffer \<Rightarrow> buffer" where
  "sha512 m = sha512_output (foldl sha512_block H512 (chunks 128 (sha512_pad m)))"

section \<open>AES-256 (the block cipher behind \<open>'aes-256-cbc'\<close>)\<close>

text \<open>
  The cipher of FIPS 197 with a 256-bit key: 14 rounds on a state of 16 bytes, held in
  the order of the input block (column by column).
\<close>

type_synonym u32 = "32 word"

definition sbox_table :: "byte list" where
  "sbox_table =
    [
     0x63, 0x7c, 0x77, 0x7b, 0xf2, 0x6b, 0x6f, 0xc5, 0x30, 0x01, 0x67, 0x2b, 0xfe, 0xd7, 0xab, 0x76,
     0xca, 0x82, 0xc9, 0x7d, 0xfa, 0x59, 0x47, 0xf0, 0xad, 0xd4, 0xa2, 0xaf, 0x9c, 0xa4, 0x72, 0xc0,
     0xb7, 0xfd, 0x93, 0x26, 0x36, 0x3f, 0xf7, 0xcc, 0x34, 0xa5, 0xe5, 0xf1, 0x71, 0xd8, 0x31, 0x15,
     0x04, 0xc7, 0x23, 0xc3, 0x18, 0x96, 0x05, 0x9a, 0x07, 0x12, 0x80, 0xe2, 0xeb, 0x27, 0xb2, 0x75,
     0x09, 0x83, 0x2c, 0x1a, 0x1b, 0x6e, 0x5a, 0xa0, 0x52, 0x3b, 0xd6, 0xb3, 0x29, 0xe3, 0x2f, 0x84,
     0x53, 0xd1, 0x00, 0xed, 0x20, 0xfc, 0xb1, 0x5b, 0x6a, 0xcb, 0xbe, 0x39, 0x4a, 0x4c, 0x58, 0xcf,
     0xd0, 0xef, 0xaa, 0xfb, 0x43, 0x4d, 0x33, 0x85, 0x45, 0xf9, 0x02, 0x7f, 0x50, 0x3c, 0x9f, 0xa8,
     0x51, 0xa3, 0x40, 0x8f, 0x92, 0x9d, 0x38, 0xf5, 0xbc, 0xb6, 0xda, 0x21, 0x10, 0xff, 0xf3, 0xd2,
     0xcd, 0x0c, 0x13, 0xec, 0x5f, 0x97, 0x44, 0x17, 0xc4, 0xa7, 0x7e, 0x3d, 0x64, 0x5d, 0x19, 0x73,
     0x60, 0x81, 0x4f, 0xdc, 0x22, 0x2a, 0x90, 0x88, 0x46, 0xee, 0xb8, 0x14, 0xde, 0x5e, 0x0b, 0xdb,
     0xe0, 0x32, 0x3a, 0x0a, 0x49, 0x06, 0x24, 0x5c, 0xc2, 0xd3, 0xac, 0x62, 0x91, 0x95, 0xe4, 0x79,
     0xe7, 0xc8, 0x37, 0x6d, 0x8d, 0xd5, 0x4e, 0xa9, 0x6c, 0x56, 0xf4, 0xea, 0x65, 0x7a, 0xae, 0x08,
     0xba, 0x78, 0x25, 0x2e, 0x1c, 0xa6, 0xb4, 0xc6, 0xe8, 0xdd, 0x74, 0x1f, 0x4b, 0xbd, 0x8b, 0x8a,
     0x70, 0x3e, 0xb5, 0x66, 0x48, 0x03, 0xf6, 0x0e, 0x61, 0x35, 0x57, 0xb9, 0x86, 0xc1, 0x1d, 0x9e,
     0xe1, 0xf8, 0x98, 0x11, 0x69, 0xd9, 0x8e, 0x94, 0x9b, 0x1e, 0x87, 0xe9, 0xce, 0x55, 0x28, 0xdf,
     0x8c, 0xa1, 0x89, 0x0d, 0xbf, 0xe6, 0x42, 0x68, 0x41, 0x99, 0x2d, 0x0f, 0xb0, 0x54, 0xbb, 0x16]"

definition inv_sbox_table :: "byte list" where
  "inv_sbox_table =
    [
     0x52, 0x09, 0x6a, 0xd5, 0x30, 0x36, 0xa5, 0x38, 0xbf, 0x40, 0xa3, 0x9e, 0x81, 0xf3, 0xd7, 0xfb,
     0x7c, 0xe3, 0x39, 0x82, 0x9b, 0x2f, 0xff, 0x87, 0x34, 0x8e, 0x43, 0x44, 0xc4, 0xde, 0xe9, 0xcb,
     0x54, 0x7b, 0x94, 0x32, 0xa6, 0xc2, 0x23, 0x3d, 0xee, 0x4c, 0x95, 0x0b, 0x42, 0xfa, 0xc3, 0x4e,
     0x08, 0x2e, 0xa1, 0x66, 0x28, 0xd9, 0x24, 0xb2, 0x76, 0x5b, 0xa2, 0x49, 0x6d, 0x8b, 0xd1, 0x25,
     0x72, 0xf8, 0xf6, 0x64, 0x86, 0x68, 0x98, 0x16, 0xd4, 0xa4, 0x5c, 0xcc, 0x5d, 0x65, 0xb6, 0x92,
     0x6c, 0x70, 0x48, 0x50, 0xfd, 0xed, 0xb9, 0xda, 0x5e, 0x15, 0x46, 0x57, 0xa7, 0x8d, 0x9d, 0x84,
     0x90, 0xd8, 0xab, 0x00, 0x8c, 0xbc, 0xd3, 0x0a, 0xf7, 0xe4, 0x58, 0x05, 0xb8, 0xb3, 0x45, 0x06,
     0xd0, 0x2c, 0x1e, 0x8f, 0xca, 0x3f, 0x0f, 0x02, 0xc1, 0xaf, 0xbd, 0x03, 0x01, 0x13, 0x8a, 0x6b,
     0x3a, 0x91, 0x11, 0x41, 0x4f, 0x67, 0xdc, 0xea, 0x97, 0xf2, 0xcf, 0xce, 0xf0, 0xb4, 0xe6, 0x73,
     0x96, 0xac, 0x74, 0x22, 0xe7, 0xad, 0x35, 0x85, 0xe2, 0xf9, 0x37, 0xe8, 0x1c, 0x75, 0xdf, 0x6e,
     0x47, 0xf1, 0x1a, 0x71, 0x1d, 0x29, 0xc5, 0x89, 0x6f, 0xb7, 0x62, 0x0e, 0xaa, 0x18, 0xbe, 0x1b,
     0xfc, 0x56, 0x3e, 0x4b, 0xc6, 0xd2, 0x79, 0x20, 0x9a, 0xdb, 0xc0, 0xfe, 0x78, 0xcd, 0x5a, 0xf4,
     0x1f, 0xdd, 0xa8, 0x33, 0x88, 0x07, 0xc7, 0x31, 0xb1, 0x12, 0x10, 0x59, 0x27, 0x80, 0xec, 0x5f,
     0x60, 0x51, 0x7f, 0xa9, 0x19, 0xb5, 0x4a, 0x0d, 0x2d, 0xe5, 0x7a, 0x9f, 0x93, 0xc9, 0x9c, 0xef,
     0xa0, 0xe0, 0x3b, 0x4d, 0xae, 0x2a, 0xf5, 0xb0, 0xc8, 0xeb, 0xbb, 0x3c, 0x83, 0x53, 0x99, 0x61,
     0x17, 0x2b, 0x04, 0x7e, 0xba, 0x77, 0xd6, 0x26, 0xe1, 0x69, 0x14, 0x63, 0x55, 0x21, 0x0c, 0x7d]"

definition sub_byte :: "byte \<Rightarrow> byte" where
  "sub_byte b = sbox_table ! unat b"

definition inv_sub_byte :: "byte \<Rightarrow> byte" where
  "inv_sub_byte b = inv_sbox_table ! unat b"

text \<open>Multiplication by \<open>x\<close> in GF(2^8), and by the constants of (Inv)MixColumns.\<close>

definition xtime :: "byte \<Rightarrow> byte" where
  "xtime b = (if bit b 7 then push_bit 1 b XOR 0x1b else push_bit 1 b)"

definition gmul3 :: "byte \<Rightarrow> byte" where
  "gmul3 b = xtime b XOR b"

definition gmul9 :: "byte \<Rightarrow> byte" where
  "gmul9 b = xtime (xtime (xtime b)) XOR b"

definition gmul11 :: "byte \<Rightarrow> byte" where
  "gmul11 b = xtime (xtime (xtime b)) XOR xtime b XOR b"

definition gmul13 :: "byte \<Rightarrow> byte" where
  "gmul13 b = xtime (xtime (xtime b)) XOR xtime (xtime b) XOR b"

definition gmul14 :: "byte \<Rightarrow> byte" where
  "gmul14 b = xtime (xtime (xtime b)) XOR xtime (xtime b) XOR xtime b"

definition sub_bytes :: "buffer \<Rightarrow> buffer" where
  "sub_bytes s = map sub_byte s"

definition inv_sub_bytes :: "buffer \<Rightarrow> buffer" where
  "inv_sub_bytes s = map inv_sub_byte s"

definition shift_rows :: "buffer \<Rightarrow> buffer" where
  "shift_rows s = map (\<lambda>i. s ! i) [0, 5, 10, 15, 4, 9, 14, 3, 8, 13, 2, 7, 12, 1, 6, 11]"

definition inv_shift_rows :: "buffer \<Rightarrow> buffer" where
  "inv_shift_rows s = map (\<lambda>i. s ! i) [0, 13, 10, 7, 4, 1, 14, 11, 8, 5, 2, 15, 12, 9, 6, 3]"

definition mix_column :: "byte \<Rightarrow> byte \<Rightarrow> byte \<Rightarrow> byte \<Rightarrow> buffer" where
  "mix_column a0 a1 a2 a3 =
     [xtime a0 XOR gmul3 a1 XOR a2 XOR a3,
      a0 XOR xtime a1 XOR gmul3 a2 XOR a3,
      a0 XOR a1 XOR xtime a2 XOR gmul3 a3,
      gmul3 a0 XOR a1 XOR a2 XOR xtime a3]"

definition inv_mix_column :: "byte \<Rightarrow> byte \<Rightarrow> byte \<Rightarrow> byte \<Rightarrow> buffer" where
  "inv_mix_column a0 a1 a2 a3 =
     [gmul14 a0 XOR gmul11 a1 XOR gmul13 a2 XOR gmul9 a3,
      gmul9 a0 XOR gmul14 a1 XOR gmul11 a2 XOR gmul13 a3,
      gmul13 a0 XOR gmul9 a1 XOR gmul14 a2 XOR gmul11 a3,
      gmul11 a0 XOR gmul13 a1 XOR gmul9 a2 XOR gmul14 a3]"

definition mix_columns :: "buffer \<Rightarrow> buffer" where
  "mix_columns s =
     concat (map (\<lambda>c. mix_column (s ! (4 * c)) (s ! (4 * c + 1)) (s ! (4 * c + 2)) (s ! (4 * c + 3)))
       [0, 1, 2, 3])"

definition inv_mix_columns :: "buffer \<Rightarrow> buffer" where
  "inv_mix_columns s =
     concat (map (\<lambda>c. inv_mix_column (s ! (4 * c)) (s ! (4 * c + 1)) (s ! (4 * c + 2)) (s ! (4 * c + 3)))
       [0, 1, 2, 3])"

definition add_round_key :: "buffer \<Rightarrow> buffer \<Rightarrow> buffer" where
  "add_round_key s k = map (\<lambda>i. s ! i XOR k ! i) [0..<16]"

subsection \<open>Key expansion\<close>

definition be32 :: "buffer \<Rightarrow> u32" where
  "be32 bs = foldl (\<lambda>acc b. push_bit 8 acc OR ucast b) 0 bs"

definition sub_word :: "u32 \<Rightarrow> u32" where
  "sub_word w = be32 (map sub_byte (be_bytes 4 w))"

definition rot_word :: "u32 \<Rightarrow> u32" where
  "rot_word w = push_bit 8 w OR drop_bit 24 w"

definition rcon :: "u32 list" where
  "rcon = [0x01000000, 0x02000000, 0x04000000, 0x08000000, 0x10000000, 0x20000000, 0x40000000]"

fun key_expansion_loop :: "nat \<Rightarrow> u32 list \<Rightarrow> u32 list" where
  "key_expansion_loop 0 w = w"
| "key_expansion_loop (Suc n) w =
     (let i = length w;
          temp = w ! (i - 1);
          temp' = (if i mod 8 = 0 then sub_word (rot_word temp) XOR rcon ! (i div 8 - 1)
                   else if i mod 8 = 4 then sub_word temp
                   else temp)
      in key_expansion_loop n (w @ [w ! (i - 8) XOR temp']))"

text \<open>The 15 round keys of a 32-byte key, 16 bytes each.\<close>

definition key_expansion :: "buffer \<Rightarrow> buffer list" where
  "key_expansion key =
     (let w = key_expansion_loop 52 (map be32 (chunks 4 key))
      in map (\<lambda>r. concat (map (\<lambda>j. be_bytes 4 (w ! (4 * r + j))) [0, 1, 2, 3])) [0..<15])"

subsection \<open>Cipher and inverse cipher\<close>

definition aes_round :: "buffer list \<Rightarrow> buffer \<Rightarrow> nat \<Rightarrow> buffer" where
  "aes_round rks s r = add_round_key (mix_columns (shift_rows (sub_bytes s))) (rks ! r)"

definition inv_aes_round :: "buffer list \<Rightarrow> buffer \<Rightarrow> nat \<Rightarrow> buffer" where
  "inv_aes_round rks s r =
     inv_mix_columns (add_round_key (inv_sub_bytes (inv_shift_rows s)) (rks ! r))"

definition aes_cipher :: "buffer list \<Rightarrow> buffer \<Rightarrow> buffer" where
  "aes_cipher rks block =
     (let s = foldl (aes_round rks) (add_round_key block (rks ! 0)) [1..<14]
      in add_round_key (shift_rows (sub_bytes s)) (rks ! 14))"

definition aes_inv_cipher :: "buffer list \<Rightarrow> buffer \<Rightarrow> buffer" where
  "aes_inv_cipher rks block =
     (let s = foldl (inv_aes_round rks) (add_round_key block (rks ! 14)) (rev [1..<14])
      in add_round_key (inv_sub_bytes (inv_shift_rows s)) (rks ! 0))"

section \<open>The \<open>crypto\<close> cipher objects\<close>

subsection \<open>CBC mode with PKCS#7 padding (OpenSSL's \<open>EVP\<close> context)\<close>

definition xor_block :: "buffer \<Rightarrow> buffer \<Rightarrow> buffer" where
  "xor_block a b = map (\<lambda>i. a ! i XOR b ! i) [0..<16]"

fun cbc_encrypt_blocks :: "buffer list \<Rightarrow> buffer \<Rightarrow> buffer list \<Rightarrow> buffer list" where
  "cbc_encrypt_blocks rks chain [] = []"
| "cbc_encrypt_blocks rks chain (p # ps) =
     (let c = aes_cipher rks (xor_block p chain) in c # cbc_encrypt_blocks rks c ps)"

fun cbc_decrypt_blocks :: "buffer list \<Rightarrow> buffer \<Rightarrow> buffer list \<Rightarrow> buffer list" where
  "cbc_decrypt_blocks rks chain [] = []"
| "cbc_decrypt_blocks rks chain (c # cs) =
     xor_block (aes_inv_cipher rks c) chain # cbc_decrypt_blocks rks c cs"

text \<open>
  The context holds the round keys, the chaining block (the IV, then the last
  ciphertext block) and the input not yet processed.
\<close>

record cipher_ctx =
  round_keys :: "buffer list"
  chain :: buffer
  pending :: buffer

text \<open>An update encrypts every whole block at hand and keeps the rest.\<close>

definition evp_encrypt_update :: "cipher_ctx \<Rightarrow> buffer \<Rightarrow> buffer \<times> cipher_ctx" where
  "evp_encrypt_update ctx data =
     (let input = pending ctx @ data;
          n = length input div 16 * 16;
          out = cbc_encrypt_blocks (round_keys ctx) (chain ctx) (chunks 16 (take n input))
      in (concat out, ctx\<lparr>chain := last (chain ctx # out), pending := drop n input\<rparr>))"

text \<open>The final block: the rest, padded with \<open>n\<close> bytes of value \<open>n\<close>.\<close>

definition evp_encrypt_final :: "cipher_ctx \<Rightarrow> buffer" where
  "evp_encrypt_final ctx =
     (let n = 16 - length (pending ctx)
      in aes_cipher (round_keys ctx) (xor_block (pending ctx @ replicate n (of_nat n)) (chain ctx)))"

text \<open>
  A decrypting update that ends on a block boundary holds the last block back, since
  it may carry the padding.
\<close>

definition evp_decrypt_update :: "cipher_ctx \<Rightarrow> buffer \<Rightarrow> buffer \<times> cipher_ctx" where
  "evp_decrypt_update ctx data =
     (let input = pending ctx @ data;
          n = (if input \<noteq> [] \<and> length input mod 16 = 0 then length input - 16
               else length input div 16 * 16);
          blocks = chunks 16 (take n input)
      in (concat (cbc_decrypt_blocks (round_keys ctx) (chain ctx) blocks),
          ctx\<lparr>chain := last (chain ctx # blocks), pending := drop n input\<rparr>))"

definition wrong_final_block_length :: js_error where
  "wrong_final_block_length = Error ''wrong final block length''"

definition bad_decrypt :: js_error where
  "bad_decrypt = Error ''bad decrypt''"

definition evp_decrypt_final :: "cipher_ctx \<Rightarrow> js_error + buffer" where
  "evp_decrypt_final ctx =
     (if length (pending ctx) \<noteq> 16 then Inl wrong_final_block_length
      else
        (let p = xor_block (aes_inv_cipher (round_keys ctx) (pending ctx)) (chain ctx);
             n = unat (last p)
         in if n = 0 \<or> 16 < n then Inl bad_decrypt
            else if list_all (\<lambda>b. b = last p) (drop (16 - n) p) then Inr (take (16 - n) p)
            else Inl bad_decrypt))"

subsection \<open>\<open>crypto.createCipheriv\<close> and \<open>crypto.createDecipheriv\<close>\<close>

text \<open>
  A string key or IV is taken as its UTF-8 bytes. Of OpenSSL's cipher table only
  \<open>aes-256-cbc\<close>, the method of the repository's README, is given a meaning here; any
  other name is treated as a cipher that OpenSSL does not know. The key must have 32
  bytes and the IV 16.
\<close>

definition aes_256_cbc :: js_string where
  "aes_256_cbc = ascii ''aes-256-cbc''"

definition evp_cipher_init :: "js_string \<Rightarrow> js_string \<Rightarrow> js_string \<Rightarrow> js_error + cipher_ctx" where
  "evp_cipher_init method_name key_string iv_string =
     (if method_name \<noteq> aes_256_cbc then Inl (Error ''Unknown cipher'')
      else if length (utf8_encode key_string) \<noteq> 32 then Inl (RangeError ''Invalid key length'')
      else if length (utf8_encode iv_string) \<noteq> 16 then
        Inl (TypeError ''Invalid initialization vector'')
      else Inr \<lparr>round_keys = key_expansion (utf8_encode key_string),
                 chain = utf8_encode iv_string, pending = []\<rparr>)"

definition createCipheriv :: "js_string \<Rightarrow> js_string \<Rightarrow> js_string \<Rightarrow> js_error + cipher_ctx" where
  "createCipheriv method_name key_string iv_string = evp_cipher_init method_name key_string iv_string"

text \<open>A \<open>Decipheriv\<close> also carries the decoder of its output encoding.\<close>

record decipher =
  ctx :: cipher_ctx
  decoder :: utf8_decoder

definition createDecipheriv :: "js_string \<Rightarrow> js_string \<Rightarrow> js_string \<Rightarrow> js_error + decipher" where
  "createDecipheriv method_name key_string iv_string =
     (case evp_cipher_init method_name key_string iv_string of
        Inl e \<Rightarrow> Inl e
      | Inr c \<Rightarrow> Inr \<lparr>ctx = c, decoder = utf8_decoder_init\<rparr>)"

text \<open>\<open>cipher.update(data, 'utf8', 'hex')\<close>: anything but a string (or a buffer, which a
  JSON body cannot hold) is a \<open>TypeError\<close>.\<close>

definition cipher_update :: "cipher_ctx \<Rightarrow> js_value \<Rightarrow> js_error + js_string \<times> cipher_ctx" where
  "cipher_update c data =
     (case data of
        Undefined \<Rightarrow> Inl (TypeError ''ERR_INVALID_ARG_TYPE'')
      | Str s \<Rightarrow>
          (let (out, c') = evp_encrypt_update c (utf8_encode s) in Inr (hex_encode out, c')))"

text \<open>\<open>cipher.final('hex')\<close>\<close>

definition cipher_final :: "cipher_ctx \<Rightarrow> js_string" where
  "cipher_final c = hex_encode (evp_encrypt_final c)"

text \<open>\<open>decipher.update(s, 'hex', 'utf8')\<close>: a hex string of odd length is a
  \<open>TypeError\<close>.\<close>

definition decipher_update :: "decipher \<Rightarrow> js_string \<Rightarrow> js_error + js_string \<times> decipher" where
  "decipher_update d s =
     (if odd (length s) then Inl (TypeError ''ERR_INVALID_ARG_VALUE'')
      else
        (let (bytes, c') = evp_decrypt_update (ctx d) (hex_decode s);
             (out, dec') = utf8_write (decoder d) bytes
         in Inr (out, \<lparr>ctx = c', decoder = dec'\<rparr>)))"

text \<open>\<open>decipher.final('utf8')\<close>\<close>

definition decipher_final :: "decipher \<Rightarrow> js_error + js_string" where
  "decipher_final d =
     (case evp_decrypt_final (ctx d) of
        Inl e \<Rightarrow> Inl e
      | Inr bytes \<Rightarrow>
          (let (out, dec') = utf8_write (decoder d) bytes in Inr (out @ utf8_end dec')))"

text \<open>\<open>Buffer.from(value, 'base64')\<close>\<close>

definition Buffer_from_base64 :: "js_value \<Rightarrow> js_error + buffer" where
  "Buffer_from_base64 v =
     (case v of
        Undefined \<Rightarrow> Inl (TypeError ''ERR_INVALID_ARG_TYPE'')
      | Str s \<Rightarrow> Inr (base64_decode s))"

section \<open>The repository\<close>

subsection \<open>\<open>config.js\<close>\<close>

record process_env =
  NODE_ENV :: js_value
  PORT :: js_value
  SECRET_KEY :: js_value
  SECRET_IV :: js_value
  ECNRYPTION_METHOD :: js_value

record config =
  env :: js_value
  port :: js_value
  secret_key :: js_value
  secret_iv :: js_value
  ecnryption_method :: js_value

definition config_js :: "process_env \<Rightarrow> config" where
  "config_js e =
     \<lparr>env = NODE_ENV e, port = PORT e, secret_key = SECRET_KEY e, secret_iv = SECRET_IV e,
      ecnryption_method = ECNRYPTION_METHOD e\<rparr>"

subsection \<open>\<open>encryption.js\<close>\<close>

text \<open>
  The constants of the module, once it has loaded: the cipher method, \<open>key\<close> and
  \<open>encryptionIV\<close>. Loading throws when one of the three configuration values is
  missing or empty.
\<close>

record encryption =
  cipher_method :: js_string
  key :: js_string
  encryptionIV :: js_string

definition required_error :: js_error where
  "required_error = Error ''secretKey, secretIV, and ecnryptionMethod are required''"

definition sha512_hex :: "js_string \<Rightarrow> js_string" where
  "sha512_hex secret = hex_encode (sha512 (utf8_encode secret))"

definition encryption_js :: "config \<Rightarrow> js_error + encryption" where
  "encryption_js cfg =
     (if falsy (secret_key cfg) \<or> falsy (secret_iv cfg) \<or> falsy (ecnryption_method cfg)
        then Inl required_error
      else
        (case (secret_key cfg, secret_iv cfg, ecnryption_method cfg) of
           (Str sk, Str siv, Str m) \<Rightarrow>
             Inr \<lparr>cipher_method = m,
                  key = substring 0 32 (sha512_hex sk),
                  encryptionIV = substring 0 16 (sha512_hex siv)\<rparr>
         | _ \<Rightarrow> Inl required_error))"

definition encryptData :: "encryption \<Rightarrow> js_value \<Rightarrow> js_error + js_string" where
  "encryptData m data =
     (case createCipheriv (cipher_method m) (key m) (encryptionIV m) of
        Inl e \<Rightarrow> Inl e
      | Inr cipher \<Rightarrow>
          (case cipher_update cipher data of
             Inl e \<Rightarrow> Inl e
           | Inr (hex1, cipher') \<Rightarrow>
               Inr (base64_encode (utf8_encode (hex1 @ cipher_final cipher')))))"

definition decryptData :: "encryption \<Rightarrow> js_value \<Rightarrow> js_error + js_string" where
  "decryptData m encryptedData =
     (case Buffer_from_base64 encryptedData of
        Inl e \<Rightarrow> Inl e
      | Inr buff \<Rightarrow>
          (case createDecipheriv (cipher_method m) (key m) (encryptionIV m) of
             Inl e \<Rightarrow> Inl e
           | Inr decipher \<Rightarrow>
               (case decipher_update decipher (utf8_decode buff) of
                  Inl e \<Rightarrow> Inl e
                | Inr (text1, decipher') \<Rightarrow>
                    (case decipher_final decipher' of
                       Inl e \<Rightarrow> Inl e
                     | Inr text2 \<Rightarrow> Inr (text1 @ text2)))))"

subsection \<open>\<open>routes.js\<close> and \<open>server.js\<close>\<close>

text \<open>
  A request body is an object: a field that is absent reads as \<open>undefined\<close>. Neither
  handler catches what \<open>encryptData\<close> or \<open>decryptData\<close> throws: the exception leaves the
  handler (\<open>Inl\<close>), and no response body is built.
\<close>

type_synonym body = "string \<Rightarrow> js_value"

datatype request = POST_encrypt body | POST_decrypt body

datatype response = Json string js_string

fun router :: "encryption \<Rightarrow> request \<Rightarrow> js_error + response" where
  "router m (POST_encrypt b) =
     (case encryptData m (b ''data'') of
        Inl e \<Rightarrow> Inl e
      | Inr encryptedData \<Rightarrow> Inr (Json ''encryptedData'' encryptedData))"
| "router m (POST_decrypt b) =
     (case decryptData m (b ''encryptedData'') of
        Inl e \<Rightarrow> Inl e
      | Inr data \<Rightarrow> Inr (Json ''data'' data))"

text \<open>
  The process: the module state is built once, when \<open>server.js\<close> imports the routes
  and they import \<open>encryption.js\<close>; a failure there ends the process before it listens.
  Afterwards each request is handled with the state at hand, and the state is handed
  on to the next request.
\<close>

definition handle :: "encryption \<Rightarrow> request \<Rightarrow> (js_error + response) \<times> encryption" where
  "handle m r = (router m r, m)"

fun serve :: "encryption \<Rightarrow> request list \<Rightarrow> (js_error + response) list \<times> encryption" where
  "serve m [] = ([], m)"
| "serve m (r # rs) =
     (let (out, m') = handle m r; (outs, m'') = serve m' rs in (out # outs, m''))"

definition server_js :: "process_env \<Rightarrow> request list \<Rightarrow> js_error + (js_error + response) list" where
  "server_js e rs =
     (case encryption_js (config_js e) of
        Inl err \<Rightarrow> Inl err
      | Inr m \<Rightarrow> Inr (fst (serve m rs)))"

section \<open>Reference descriptions\<close>

text \<open>
  The notions in which the properties below are stated; the repository's code does not
  use them. A string is well formed (\<open>String.prototype.isWellFormed\<close>) when every
  surrogate code unit belongs to a pair.
\<close>

fun isWellFormed :: "js_string \<Rightarrow> bool" where
  "isWellFormed [] = True"
| "isWellFormed [u] = (\<not> is_high_surrogate u \<and> \<not> is_low_surrogate u)"
| "isWellFormed (u # v # us) =
     (if is_high_surrogate u then is_low_surrogate v \<and> isWellFormed us
      else \<not> is_low_surrogate u \<and> isWellFormed (v # us))"

text \<open>PKCS#7 padding to whole blocks of 16 bytes, and its removal.\<close>

definition pkcs7_pad :: "buffer \<Rightarrow> buffer" where
  "pkcs7_pad p = (let n = 16 - length p mod 16 in p @ replicate n (of_nat n))"

definition pkcs7_unpad :: "buffer \<Rightarrow> buffer option" where
  "pkcs7_unpad p =
     (let n = unat (last p)
      in if p = [] \<or> n = 0 \<or> 16 < n \<or> length p < n then None
         else if list_all (\<lambda>b. b = last p) (drop (length p - n) p)
           then Some (take (length p - n) p)
         else None)"

text \<open>AES-256 in CBC mode over a whole message, for a key of 32 and an IV of 16 bytes.\<close>

definition aes_256_cbc_encrypt :: "buffer \<Rightarrow> buffer \<Rightarrow> buffer \<Rightarrow> buffer" where
  "aes_256_cbc_encrypt k iv p =
     concat (cbc_encrypt_blocks (key_expansion k) iv (chunks 16 (pkcs7_pad p)))"

definition aes_256_cbc_decrypt :: "buffer \<Rightarrow> buffer \<Rightarrow> buffer \<Rightarrow> js_error + buffer" where
  "aes_256_cbc_decrypt k iv c =
     (if c = [] \<or> length c mod 16 \<noteq> 0 then Inl wrong_final_block_length
      else
        (case pkcs7_unpad (concat (cbc_decrypt_blocks (key_expansion k) iv (chunks 16 c))) of
           None \<Rightarrow> Inl bad_decrypt
         | Some p \<Rightarrow> Inr p))"

text \<open>A configuration is valid when both secrets are present and non-empty and the
  method is \<open>aes-256-cbc\<close>.\<close>

definition valid_config :: "config \<Rightarrow> bool" where
  "valid_config cfg \<longleftrightarrow>
     \<not> falsy (secret_key cfg) \<and> \<not> falsy (secret_iv cfg) \<and> ecnryption_method cfg = Str aes_256_cbc"

text \<open>The environment of the README's \<open>.env\<close> file, and the module it gives.\<close>

definition readme_env :: process_env where
  "readme_env =
     \<lparr>NODE_ENV = Str (ascii ''development''), PORT = Str (ascii ''3000''),
      SECRET_KEY = Str (ascii ''secretKey''), SECRET_IV = Str (ascii ''secretIV''),
      ECNRYPTION_METHOD = Str (ascii ''aes-256-cbc'')\<rparr>"

definition readme_module :: encryption where
  "readme_module =
     \<lparr>cipher_method = ascii ''aes-256-cbc'',
      key = substring 0 32 (sha512_hex (ascii ''secretKey'')),
      encryptionIV = substring 0 16 (sha512_hex (ascii ''secretIV''))\<rparr>"

text \<open>What the cipher objects ask of a loaded module: the modelled method, and a key and
  an IV whose UTF-8 bytes number 32 and 16.\<close>

definition key_bytes :: "encryption \<Rightarrow> buffer" where
  "key_bytes m = utf8_encode (key m)"

definition iv_bytes :: "encryption \<Rightarrow> buffer" where
  "iv_bytes m = utf8_encode (encryptionIV m)"

definition usable :: "encryption \<Rightarrow> bool" where
  "usable m \<longleftrightarrow>
     cipher_method m = aes_256_cbc \<and> length (key_bytes m) = 32 \<and> length (iv_bytes m) = 16"

text \<open>
  The envelope as the specification describes it: Base64 of the ASCII text of the
  lowercase hex rendering of the ciphertext of the UTF-8 bytes of the plaintext.
\<close>

definition envelope_of :: "encryption \<Rightarrow> js_string \<Rightarrow> js_string" where
  "envelope_of m plaintext =
     base64_encode (map ucast
       (hex_encode (aes_256_cbc_encrypt (key_bytes m) (iv_bytes m) (utf8_encode plaintext))))"

text \<open>
  Decryption as the code performs it, in terms of the reference descriptions: the
  envelope is Base64-decoded leniently, the bytes are read as UTF-8 text, the text is
  hex-decoded up to its first pair that is not hex, and the result is decrypted.
\<close>

definition open_envelope :: "encryption \<Rightarrow> js_string \<Rightarrow> js_error + js_string" where
  "open_envelope m envelope =
     (let hex_text = utf8_decode (base64_decode envelope)
      in if odd (length hex_text) then Inl (TypeError ''ERR_INVALID_ARG_VALUE'')
         else
           (case aes_256_cbc_decrypt (key_bytes m) (iv_bytes m) (hex_decode hex_text) of
              Inl e \<Rightarrow> Inl e
            | Inr p \<Rightarrow> Inr (utf8_decode p)))"

chapter \<open>Properties\<close>

section \<open>The inverse cipher undoes the cipher\<close>

lemma byte_all: "(\<forall>x::byte. P x) \<longleftrightarrow> list_all P (map of_nat [0..<256])"
proof
  assume "\<forall>x. P x"
  then show "list_all P (map of_nat [0..<256])" by (simp add: list_all_iff)
next
  assume a: "list_all P (map of_nat [0..<256])"
  show "\<forall>x. P x"
  proof
    fix x :: byte
    have "unat x < 256" using unsigned_less [of x, where ?'a = nat] by simp
    then have "of_nat (unat x) \<in> set (map of_nat [0..<256] :: byte list)"
      by (simp del: of_nat_unat)
    then have "x \<in> set (map of_nat [0..<256] :: byte list)"
      by (simp only: of_nat_unat ucast_id)
    with a show "P x" by (auto simp: list_all_iff)
  qed
qed

lemma sub_byte_inverse_all:
  "list_all (\<lambda>x. inv_sub_byte (sub_byte x) = x) (map of_nat [0..<256])"
  by code_simp

lemma inv_sub_byte_sub_byte: "inv_sub_byte (sub_byte x) = x"
  using sub_byte_inverse_all byte_all [of "\<lambda>x. inv_sub_byte (sub_byte x) = x"] by blast

lemma inv_sub_bytes_sub_bytes: "inv_sub_bytes (sub_bytes s) = s"
  by (simp add: inv_sub_bytes_def sub_bytes_def inv_sub_byte_sub_byte map_idI)

lemma xtime_xor: "xtime (a XOR b) = xtime a XOR xtime b"
  by (simp add: xtime_def bit_xor_iff ac_simps)

lemma xor_cancel_left: "(a::byte) XOR (a XOR b) = b"
  by (simp add: xor.assoc [symmetric])

lemma state16:
  "length s = 16 \<Longrightarrow>
   s = [s!0, s!1, s!2, s!3, s!4, s!5, s!6, s!7, s!8, s!9, s!10, s!11, s!12, s!13, s!14, s!15]"
  by (rule nth_equalityI) (auto simp: nth_Cons' less_Suc_eq numeral_eq_Suc)

lemma upt16: "[0..<16] = [0, 1, 2, 3, 4, 5, 6, 7, 8, 9, 10, 11, 12, 13, 14, 15]"
  by (simp add: numeral_eq_Suc upt_rec)

lemma length_shift_rows [simp]: "length (shift_rows s) = 16"
  by (simp add: shift_rows_def)

lemma length_sub_bytes [simp]: "length (sub_bytes s) = length s"
  by (simp add: sub_bytes_def)

lemma length_mix_columns [simp]: "length (mix_columns s) = 16"
  by (simp add: mix_columns_def mix_column_def)

lemma length_add_round_key [simp]: "length (add_round_key s k) = 16"
  by (simp add: add_round_key_def)

lemma length_aes_round [simp]: "length (aes_round rks s r) = 16"
  by (simp add: aes_round_def)

lemma length_foldl_aes_round: "length s = 16 \<Longrightarrow> length (foldl (aes_round rks) s rs) = 16"
  by (induction rs rule: rev_induct) simp_all

lemma inv_shift_rows_shift_rows: "length s = 16 \<Longrightarrow> inv_shift_rows (shift_rows s) = s"
  by (subst (2) state16, assumption) (simp add: inv_shift_rows_def shift_rows_def)

lemma inv_mix_columns_explicit:
  "inv_mix_columns (mix_columns [a0, a1, a2, a3, a4, a5, a6, a7, a8, a9, a10, a11, a12, a13, a14, a15])
     = [a0, a1, a2, a3, a4, a5, a6, a7, a8, a9, a10, a11, a12, a13, a14, a15]"
  by (simp add: inv_mix_columns_def mix_columns_def inv_mix_column_def mix_column_def
        gmul3_def gmul9_def gmul11_def gmul13_def gmul14_def xtime_xor xor_cancel_left ac_simps)

lemma inv_mix_columns_mix_columns:
  assumes "length s = 16"
  shows "inv_mix_columns (mix_columns s) = s"
proof -
  have e: "s = [s!0, s!1, s!2, s!3, s!4, s!5, s!6, s!7, s!8, s!9, s!10, s!11, s!12, s!13, s!14, s!15]"
    by (rule state16 [OF assms])
  show ?thesis
    by (subst (1 2) e) (rule inv_mix_columns_explicit)
qed

lemma add_round_key_twice: "length s = 16 \<Longrightarrow> add_round_key (add_round_key s k) k = s"
  by (subst (3) state16, assumption) (simp add: add_round_key_def upt16 xor.assoc)

lemma inv_aes_round_aes_round:
  assumes "length t = 16"
  shows "inv_aes_round rks (shift_rows (sub_bytes (aes_round rks t r))) r = shift_rows (sub_bytes t)"
proof -
  let ?m = "mix_columns (shift_rows (sub_bytes t))"
  have "inv_shift_rows (shift_rows (sub_bytes (aes_round rks t r))) = sub_bytes (aes_round rks t r)"
    by (simp add: inv_shift_rows_shift_rows)
  then have "inv_aes_round rks (shift_rows (sub_bytes (aes_round rks t r))) r
      = inv_mix_columns (add_round_key (aes_round rks t r) (rks ! r))"
    by (simp add: inv_aes_round_def inv_sub_bytes_sub_bytes)
  also have "add_round_key (aes_round rks t r) (rks ! r) = ?m"
    by (simp add: aes_round_def add_round_key_twice)
  also have "inv_mix_columns ?m = shift_rows (sub_bytes t)"
    by (simp add: inv_mix_columns_mix_columns)
  finally show ?thesis .
qed

lemma foldl_inv_aes_round:
  "length s = 16 \<Longrightarrow>
   foldl (inv_aes_round rks) (shift_rows (sub_bytes (foldl (aes_round rks) s rs))) (rev rs)
     = shift_rows (sub_bytes s)"
proof (induction rs rule: rev_induct)
  case Nil
  then show ?case by simp
next
  case (snoc r rs)
  then show ?case
    by (simp add: inv_aes_round_aes_round length_foldl_aes_round)
qed

lemma aes_inv_cipher_cipher:
  assumes "length block = 16"
  shows "aes_inv_cipher rks (aes_cipher rks block) = block"
proof -
  let ?ini = "add_round_key block (rks ! 0)"
  let ?mid = "foldl (aes_round rks) ?ini [1..<14]"
  have a: "add_round_key (aes_cipher rks block) (rks ! 14) = shift_rows (sub_bytes ?mid)"
    by (simp add: aes_cipher_def add_round_key_twice)
  have b: "foldl (inv_aes_round rks) (shift_rows (sub_bytes ?mid)) (rev [1..<14])
      = shift_rows (sub_bytes ?ini)"
    by (rule foldl_inv_aes_round) simp
  have "aes_inv_cipher rks (aes_cipher rks block)
      = add_round_key (inv_sub_bytes (inv_shift_rows (shift_rows (sub_bytes ?ini)))) (rks ! 0)"
    by (simp only: aes_inv_cipher_def Let_def a b)
  also have "\<dots> = block"
    using assms by (simp add: inv_shift_rows_shift_rows inv_sub_bytes_sub_bytes add_round_key_twice)
  finally show ?thesis .
qed

lemma length_aes_cipher [simp]: "length (aes_cipher rks block) = 16"
  by (simp add: aes_cipher_def)

lemma length_aes_inv_cipher [simp]: "length (aes_inv_cipher rks block) = 16"
  by (simp add: aes_inv_cipher_def)

section \<open>Bytes and their bits\<close>

lemma byte_eqI:
  fixes a b :: byte
  assumes "bit a 0 = bit b 0" "bit a 1 = bit b 1" "bit a 2 = bit b 2" "bit a 3 = bit b 3"
    "bit a 4 = bit b 4" "bit a 5 = bit b 5" "bit a 6 = bit b 6" "bit a 7 = bit b 7"
  shows "a = b"
proof (rule bit_word_eqI)
  fix n assume "n < LENGTH(8)"
  then have "n \<in> {0, 1, 2, 3, 4, 5, 6, 7}"
    by simp arith
  with assms show "bit a n = bit b n" by auto
qed

lemma byte_below_all:
  assumes "k < 256"
  shows "(\<forall>x::byte. x < of_nat k \<longrightarrow> P x) \<longleftrightarrow> list_all P (map of_nat [0..<k])"
proof -
  have k: "unat (of_nat k :: byte) = k" using assms by (simp add: unat_of_nat)
  show ?thesis
  proof
    assume a: "\<forall>x::byte. x < of_nat k \<longrightarrow> P x"
    have "P (of_nat i :: byte)" if "i < k" for i
    proof -
      have "unat (of_nat i :: byte) = i" using that assms by (simp add: unat_of_nat)
      with that k have "(of_nat i :: byte) < of_nat k" by (simp add: word_less_nat_alt)
      with a show ?thesis by blast
    qed
    then show "list_all P (map of_nat [0..<k])" by (simp add: list_all_iff)
  next
    assume a: "list_all P (map of_nat [0..<k])"
    show "\<forall>x::byte. x < of_nat k \<longrightarrow> P x"
    proof (intro allI impI)
      fix x :: byte assume "x < of_nat k"
      with k have "unat x < k" by (simp add: word_less_nat_alt)
      then have "of_nat (unat x) \<in> set (map of_nat [0..<k] :: byte list)"
        by (simp del: of_nat_unat)
      then have "x \<in> set (map of_nat [0..<k] :: byte list)"
        by (simp only: of_nat_unat ucast_id)
      with a show "P x" by (auto simp: list_all_iff)
    qed
  qed
qed

lemma nibble_all: "(\<forall>x::byte. x < 16 \<longrightarrow> P x) \<longleftrightarrow> list_all P (map of_nat [0..<16])"
  using byte_below_all [of 16 P] by simp

lemma sextet_all: "(\<forall>x::byte. x < 64 \<longrightarrow> P x) \<longleftrightarrow> list_all P (map of_nat [0..<64])"
  using byte_below_all [of 64 P] by simp

lemma byte_take_bit_eq_self_iff: "take_bit n (x::byte) = x \<longleftrightarrow> unat x < 2 ^ n"
proof -
  have "take_bit n x = x \<longleftrightarrow> unat (take_bit n x) = unat x"
    by (simp only: word_unat_eq_iff)
  also have "\<dots> \<longleftrightarrow> take_bit n (unat x) = unat x"
    by (simp only: unsigned_take_bit_eq)
  also have "\<dots> \<longleftrightarrow> unat x < 2 ^ n"
    by (simp only: take_bit_nat_eq_self_iff)
  finally show ?thesis .
qed

lemma byte_less_16_iff: "(x::byte) < 16 \<longleftrightarrow> take_bit 4 x = x"
  by (simp add: byte_take_bit_eq_self_iff word_less_nat_alt)

lemma byte_less_64_iff: "(x::byte) < 64 \<longleftrightarrow> take_bit 6 x = x"
  by (simp add: byte_take_bit_eq_self_iff word_less_nat_alt)

section \<open>Hexadecimal and ASCII text\<close>

lemma length_hex_encode: "length (hex_encode bs) = 2 * length bs"
  by (induction bs) (simp_all add: hex_encode_def)

lemma hex_encode_append: "hex_encode (a @ b) = hex_encode a @ hex_encode b"
  by (simp add: hex_encode_def)

lemma hex_nibble_all:
  "list_all (\<lambda>n. unhex (hex_digit n) = Some n \<and> hex_digit n < 0x80) (map of_nat [0..<16])"
  by code_simp

lemma hex_nibble: "n < 16 \<Longrightarrow> unhex (hex_digit n) = Some n \<and> hex_digit n < 0x80"
  using hex_nibble_all [unfolded nibble_all [symmetric]] by blast

lemma drop_bit_4_less: "drop_bit 4 (b::byte) < 16"
  unfolding byte_less_16_iff by (rule byte_eqI) (auto simp: bit_simps dest: bit_imp_le_length)

lemma take_bit_4_less: "take_bit 4 (b::byte) < 16"
  unfolding byte_less_16_iff by (rule byte_eqI) (simp_all add: bit_simps)

lemma nibbles_join: "push_bit 4 (drop_bit 4 b) OR take_bit 4 b = (b::byte)"
  by (rule byte_eqI) (simp_all add: bit_simps)

lemma hex_decode_hex_encode: "hex_decode (hex_encode bs) = bs"
  by (induction bs)
     (simp_all add: hex_encode_def hex_nibble drop_bit_4_less take_bit_4_less nibbles_join)

lemma hex_encode_ascii: "list_all (\<lambda>c. c < 0x80) (hex_encode bs)"
  by (induction bs) (simp_all add: hex_encode_def hex_nibble drop_bit_4_less take_bit_4_less)

lemma hex_digits_codes:
  "ascii ''0123456789abcdef'' = [48, 49, 50, 51, 52, 53, 54, 55, 56, 57, 97, 98, 99, 100, 101, 102]"
  by (simp add: ascii_def)

lemma hex_nibble_digit_all:
  "list_all (\<lambda>n. hex_digit n \<in> set (ascii ''0123456789abcdef'')) (map of_nat [0..<16])"
  unfolding hex_digits_codes by code_simp

lemma hex_nibble_digit: "n < 16 \<Longrightarrow> hex_digit n \<in> set (ascii ''0123456789abcdef'')"
  using hex_nibble_digit_all [unfolded nibble_all [symmetric]] by blast

lemma hex_encode_digits: "set (hex_encode bs) \<subseteq> set (ascii ''0123456789abcdef'')"
proof
  fix c assume "c \<in> set (hex_encode bs)"
  then obtain b where "c = hex_digit (drop_bit 4 b) \<or> c = hex_digit (take_bit 4 b)"
    by (auto simp: hex_encode_def)
  then show "c \<in> set (ascii ''0123456789abcdef'')"
    using hex_nibble_digit [OF drop_bit_4_less] hex_nibble_digit [OF take_bit_4_less] by blast
qed

lemma ascii_not_surrogate:
  "(c::u16) < 0x80 \<Longrightarrow> \<not> is_high_surrogate c \<and> \<not> is_low_surrogate c"
  by (simp add: is_high_surrogate_def is_low_surrogate_def word_less_nat_alt word_le_nat_alt)

lemma utf8_bytes_ascii: "(c::u16) < 0x80 \<Longrightarrow> utf8_bytes (unat c) = [ucast c]"
  by (simp add: utf8_bytes_def word_less_nat_alt)

lemma utf8_encode_ascii: "list_all (\<lambda>c. c < 0x80) s \<Longrightarrow> utf8_encode s = map ucast s"
  by (induction s rule: utf8_encode.induct) (simp_all add: ascii_not_surrogate utf8_bytes_ascii)

lemma utf8_step_ascii:
  assumes "(c::u16) < 0x80"
  shows "utf8_step utf8_decoder_init (ucast c) = ([c], utf8_decoder_init)"
proof -
  from assms have lt: "unat c < 128" by (simp add: word_less_nat_alt)
  then have "unat (ucast c :: byte) = unat c" by (simp add: unsigned_ucast_eq take_bit_eq_mod)
  with lt show ?thesis
    by (simp add: utf8_step_def utf8_lead_def utf8_decoder_init_def)
qed

lemma utf8_write_ascii:
  "list_all (\<lambda>c. c < 0x80) s \<Longrightarrow>
   utf8_write utf8_decoder_init (map ucast s) = (s, utf8_decoder_init)"
  by (induction s) (simp_all add: utf8_step_ascii)

lemma utf8_decode_ascii: "list_all (\<lambda>c. c < 0x80) s \<Longrightarrow> utf8_decode (map ucast s) = s"
  by (simp add: utf8_decode_def utf8_write_ascii utf8_end_def) (simp add: utf8_decoder_init_def)

section \<open>Base64\<close>

lemma base64_alphabet_codes:
  "base64_alphabet =
     [0x41, 0x42, 0x43, 0x44, 0x45, 0x46, 0x47, 0x48, 0x49, 0x4A, 0x4B, 0x4C, 0x4D, 0x4E, 0x4F, 0x50,
      0x51, 0x52, 0x53, 0x54, 0x55, 0x56, 0x57, 0x58, 0x59, 0x5A, 0x61, 0x62, 0x63, 0x64, 0x65, 0x66,
      0x67, 0x68, 0x69, 0x6A, 0x6B, 0x6C, 0x6D, 0x6E, 0x6F, 0x70, 0x71, 0x72, 0x73, 0x74, 0x75, 0x76,
      0x77, 0x78, 0x79, 0x7A, 0x30, 0x31, 0x32, 0x33, 0x34, 0x35, 0x36, 0x37, 0x38, 0x39, 0x2B, 0x2F]"
  by (simp add: base64_alphabet_def ascii_def)

lemma sextets_upt:
  "map of_nat [0..<64] =
     [0x00, 0x01, 0x02, 0x03, 0x04, 0x05, 0x06, 0x07, 0x08, 0x09, 0x0A, 0x0B, 0x0C, 0x0D, 0x0E, 0x0F,
      0x10, 0x11, 0x12, 0x13, 0x14, 0x15, 0x16, 0x17, 0x18, 0x19, 0x1A, 0x1B, 0x1C, 0x1D, 0x1E, 0x1F,
      0x20, 0x21, 0x22, 0x23, 0x24, 0x25, 0x26, 0x27, 0x28, 0x29, 0x2A, 0x2B, 0x2C, 0x2D, 0x2E, 0x2F,
      0x30, 0x31, 0x32, 0x33, 0x34, 0x35, 0x36, 0x37, 0x38, 0x39, 0x3A, 0x3B, 0x3C, 0x3D, 0x3E, 0x3F :: byte]"
  by (simp add: numeral_eq_Suc upt_rec)

lemma base64_sextet_all:
  "list_all (\<lambda>n. unbase64 (base64_char n) = Some n \<and> base64_char n < 0x80
       \<and> (ucast (base64_char n) :: byte) \<noteq> 0x3D)
     (map of_nat [0..<64])"
  unfolding sextets_upt
  by (simp add: base64_char_def base64_alphabet_codes unbase64_def)

lemma base64_sextet:
  "n < 64 \<Longrightarrow> unbase64 (base64_char n) = Some n \<and> base64_char n < 0x80
     \<and> (ucast (base64_char n) :: byte) \<noteq> 0x3D"
  using base64_sextet_all [unfolded sextet_all [symmetric]] by blast

lemma sextets_less:
  fixes a b c :: byte
  shows "drop_bit 2 a < 64"
    and "push_bit 4 (take_bit 2 a) OR drop_bit 4 b < 64"
    and "push_bit 2 (take_bit 4 b) OR drop_bit 6 c < 64"
    and "take_bit 6 c < 64"
    and "push_bit 4 (take_bit 2 a) < 64"
    and "push_bit 2 (take_bit 4 b) < 64"
  unfolding byte_less_64_iff by (rule byte_eqI; auto simp: bit_simps dest: bit_imp_le_length)+

lemma sextets_join:
  fixes a b c :: byte
  shows "push_bit 2 (drop_bit 2 a) OR drop_bit 4 (push_bit 4 (take_bit 2 a) OR drop_bit 4 b) = a"
    and "push_bit 4 (push_bit 4 (take_bit 2 a) OR drop_bit 4 b)
           OR drop_bit 2 (push_bit 2 (take_bit 4 b) OR drop_bit 6 c) = b"
    and "push_bit 6 (push_bit 2 (take_bit 4 b) OR drop_bit 6 c) OR take_bit 6 c = c"
    and "push_bit 2 (drop_bit 2 a) OR drop_bit 4 (push_bit 4 (take_bit 2 a)) = a"
    and "push_bit 4 (push_bit 4 (take_bit 2 a) OR drop_bit 4 b)
           OR drop_bit 2 (push_bit 2 (take_bit 4 b)) = b"
  by (rule byte_eqI; simp add: bit_simps)+

lemma equals_sign_stops: "(ucast equals_sign :: byte) = 0x3D"
  by (simp add: equals_sign_def)

lemma base64_digits_4:
  assumes "s1 < 64" "s2 < 64" "s3 < 64" "s4 < 64"
  shows "List.map_filter unbase64 (takeWhile (\<lambda>c. (ucast c :: byte) \<noteq> 0x3D)
           ([base64_char s1, base64_char s2, base64_char s3, base64_char s4] @ cs))
         = s1 # s2 # s3 # s4 #
             List.map_filter unbase64 (takeWhile (\<lambda>c. (ucast c :: byte) \<noteq> 0x3D) cs)"
  using assms by (simp add: base64_sextet)

lemma base64_digits_3:
  assumes "s1 < 64" "s2 < 64" "s3 < 64"
  shows "List.map_filter unbase64 (takeWhile (\<lambda>c. (ucast c :: byte) \<noteq> 0x3D)
           ([base64_char s1, base64_char s2, base64_char s3, equals_sign] @ cs))
         = [s1, s2, s3]"
  using assms by (simp add: base64_sextet equals_sign_stops)

lemma base64_digits_2:
  assumes "s1 < 64" "s2 < 64"
  shows "List.map_filter unbase64 (takeWhile (\<lambda>c. (ucast c :: byte) \<noteq> 0x3D)
           ([base64_char s1, base64_char s2, equals_sign] @ cs))
         = [s1, s2]"
  using assms by (simp add: base64_sextet equals_sign_stops)

lemma base64_decode_base64_encode: "base64_decode (base64_encode bs) = bs"
proof -
  have "base64_groups (List.map_filter unbase64
          (takeWhile (\<lambda>c. (ucast c :: byte) \<noteq> 0x3D) (base64_encode bs))) = bs"
  proof (induction bs rule: base64_encode.induct)
    case (1 a b c rest)
    show ?case
      by (simp only: base64_encode.simps base64_digits_4 [OF sextets_less(1-4)]
            base64_groups.simps sextets_join 1) simp
  next
    case (2 a b)
    show ?case
      using base64_digits_3 [OF sextets_less(1,2,6), of a a b b "[]"]
      by (simp only: base64_encode.simps base64_groups.simps sextets_join append_Nil2)
  next
    case (3 a)
    show ?case
      using base64_digits_2 [OF sextets_less(1,5), of a a "[equals_sign]"]
      by (simp only: base64_encode.simps base64_groups.simps sextets_join append_Cons append_Nil)
  next
    case 4
    show ?case by simp
  qed
  then show ?thesis by (simp add: base64_decode_def)
qed

lemma base64_encode_ascii: "list_all (\<lambda>c. c < 0x80) (base64_encode bs)"
  by (induction bs rule: base64_encode.induct)
     (simp_all add: base64_sextet sextets_less equals_sign_def)

section \<open>UTF-8\<close>

lemma utf8_write_append:
  "utf8_write d (a @ b) =
     (case utf8_write d a of (out1, d1) \<Rightarrow>
        (case utf8_write d1 b of (out2, d2) \<Rightarrow> (out1 @ out2, d2)))"
  by (induction a arbitrary: d) (simp_all split: prod.splits)

lemma utf8_write_1:
  assumes "cp < 0x80"
  shows "utf8_write utf8_decoder_init (utf8_bytes cp @ rest) =
     (utf16_units cp @ fst (utf8_write utf8_decoder_init rest),
      snd (utf8_write utf8_decoder_init rest))"
  using assms
  by (simp add: utf8_bytes_def utf16_units_def utf8_step_def utf8_lead_def unat_of_nat
        utf8_decoder_init_def split: prod.splits)

lemma digits_base_64:
  fixes cp d1 d2 d3 m1 m2 m3 :: nat
  assumes "cp = d1 * 0x40 + m1" "d1 = d2 * 0x40 + m2" "d2 = d3 * 0x40 + m3"
  shows "cp = d3 * 0x40000 + m3 * 0x1000 + m2 * 0x40 + m1"
  using assms by linarith

lemma split_code_point:
  fixes cp :: nat
  obtains q0 q1 q2 q3 where
    "cp = q0 * 0x40000 + q1 * 0x1000 + q2 * 0x40 + q3" "q1 < 0x40" "q2 < 0x40" "q3 < 0x40"
    "cp div 0x40000 = q0" "cp div 0x1000 mod 0x40 = q1" "cp div 0x40 mod 0x40 = q2"
    "cp mod 0x40 = q3" "cp div 0x1000 = q0 * 0x40 + q1"
proof -
  have d2: "cp div 0x40 div 0x40 = cp div 0x1000" by (simp add: div_mult2_eq [symmetric])
  have d3: "cp div 0x1000 div 0x40 = cp div 0x40000" by (simp add: div_mult2_eq [symmetric])
  have e1: "cp = cp div 0x40 * 0x40 + cp mod 0x40" by simp
  have e2: "cp div 0x40 = cp div 0x1000 * 0x40 + cp div 0x40 mod 0x40"
    unfolding d2 [symmetric] by simp
  have e3: "cp div 0x1000 = cp div 0x40000 * 0x40 + cp div 0x1000 mod 0x40"
    unfolding d3 [symmetric] by simp
  show thesis
  proof (rule that [of "cp div 0x40000" "cp div 0x1000 mod 0x40" "cp div 0x40 mod 0x40" "cp mod 0x40"])
    show "cp = cp div 0x40000 * 0x40000 + cp div 0x1000 mod 0x40 * 0x1000
        + cp div 0x40 mod 0x40 * 0x40 + cp mod 0x40"
      by (rule digits_base_64 [OF e1 e2 e3])
    show "cp div 0x1000 = cp div 0x40000 * 0x40 + cp div 0x1000 mod 0x40" by (rule e3)
  qed simp_all
qed

lemma mod_add_multiple:
  fixes q :: nat
  assumes "q < n"
  shows "(n * k + q) mod n = q"
  using assms by simp

lemma byte_of_nat: "n < 256 \<Longrightarrow> unat (of_nat n :: byte) = n"
  by (simp add: unat_of_nat)

lemma utf8_step_lead:
  "unat b = x \<Longrightarrow> bytes_needed d = 0 \<Longrightarrow> utf8_step d b = utf8_lead x"
  by (simp add: utf8_step_def)

lemma utf8_step_continue:
  assumes "unat b = x" "bytes_needed d = Suc k" "lower_boundary d \<le> x" "x \<le> upper_boundary d"
    "x mod 0x40 = r"
  shows "utf8_step d b =
     (if k = 0 then (utf16_units (code_point d * 0x40 + r), utf8_decoder_init)
      else ([], \<lparr>code_point = code_point d * 0x40 + r, bytes_needed = k,
                  lower_boundary = 0x80, upper_boundary = 0xBF\<rparr>))"
  using assms by (simp add: utf8_step_def)

lemma utf8_lead_2:
  assumes "2 \<le> q" "q < 0x20"
  shows "utf8_lead (0xC0 + q) =
     ([], \<lparr>code_point = q, bytes_needed = 1, lower_boundary = 0x80, upper_boundary = 0xBF\<rparr>)"
proof -
  have "(0xC0 + q) mod 0x20 = q" using mod_add_multiple [of q "0x20" 6] assms by simp
  with assms show ?thesis by (simp add: utf8_lead_def)
qed

lemma utf8_lead_3:
  assumes "q < 0x10"
  shows "utf8_lead (0xE0 + q) =
     ([], \<lparr>code_point = q, bytes_needed = 2,
            lower_boundary = (if q = 0 then 0xA0 else 0x80),
            upper_boundary = (if q = 0xD then 0x9F else 0xBF)\<rparr>)"
proof -
  have "(0xE0 + q) mod 0x10 = q" using mod_add_multiple [of q "0x10" 14] assms by simp
  with assms show ?thesis by (simp add: utf8_lead_def)
qed

lemma utf8_lead_4:
  assumes "q < 0x05"
  shows "utf8_lead (0xF0 + q) =
     ([], \<lparr>code_point = q, bytes_needed = 3,
            lower_boundary = (if q = 0 then 0x90 else 0x80),
            upper_boundary = (if q = 4 then 0x8F else 0xBF)\<rparr>)"
proof -
  have "(0xF0 + q) mod 0x08 = q" using mod_add_multiple [of q "0x08" 30] assms by simp
  with assms show ?thesis by (simp add: utf8_lead_def)
qed

lemma utf8_write_2:
  assumes "0x80 \<le> cp" "cp < 0x800"
  shows "utf8_write utf8_decoder_init (utf8_bytes cp @ rest) =
     (utf16_units cp @ fst (utf8_write utf8_decoder_init rest),
      snd (utf8_write utf8_decoder_init rest))"
proof -
  define q1 q2 where "q1 = cp div 0x40" and "q2 = cp mod 0x40"
  have cp: "q1 * 0x40 + q2 = cp" and q2: "q2 < 0x40" by (simp_all add: q1_def q2_def)
  from cp assms q2 have q1: "2 \<le> q1" "q1 < 0x20" by linarith+
  define b1 b2 :: byte where "b1 = of_nat (0xC0 + q1)" and "b2 = of_nat (0x80 + q2)"
  have u: "unat b1 = 0xC0 + q1" "unat b2 = 0x80 + q2"
    unfolding b1_def b2_def using q1 q2 by (intro byte_of_nat; linarith)+
  let ?d1 = "\<lparr>code_point = q1, bytes_needed = Suc 0, lower_boundary = 0x80, upper_boundary = 0xBF\<rparr>"
  have m2: "(0x80 + q2) mod 0x40 = q2" using mod_add_multiple [of q2 "0x40" 2] q2 by simp
  have s1: "utf8_step utf8_decoder_init b1 = ([], ?d1)"
    using utf8_step_lead [OF u(1), of utf8_decoder_init] utf8_lead_2 [OF q1]
    by (simp add: utf8_decoder_init_def)
  have s2: "utf8_step ?d1 b2 = (utf16_units cp, utf8_decoder_init)"
    using utf8_step_continue [OF u(2) _ _ _ m2, of ?d1 0] q2 cp by simp
  have "utf8_bytes cp = [b1, b2]"
    using assms unfolding b1_def b2_def q1_def q2_def by (simp add: utf8_bytes_def)
  then show ?thesis
    by (simp add: s1 s2 split: prod.splits)
qed

lemma utf8_write_3:
  assumes "0x800 \<le> cp" "cp < 0x10000" "cp < 0xD800 \<or> 0xE000 \<le> cp"
  shows "utf8_write utf8_decoder_init (utf8_bytes cp @ rest) =
     (utf16_units cp @ fst (utf8_write utf8_decoder_init rest),
      snd (utf8_write utf8_decoder_init rest))"
proof -
  obtain q0 q1 q2 q3 where q:
    "cp = q0 * 0x40000 + q1 * 0x1000 + q2 * 0x40 + q3" "q1 < 0x40" "q2 < 0x40" "q3 < 0x40"
    and d: "cp div 0x1000 = q0 * 0x40 + q1" "cp div 0x40 mod 0x40 = q2" "cp mod 0x40 = q3"
    by (rule split_code_point [of cp])
  from q assms have q0: "q0 = 0" and q1: "q1 < 0x10" by linarith+
  define b1 b2 b3 :: byte
    where "b1 = of_nat (0xE0 + q1)" and "b2 = of_nat (0x80 + q2)" and "b3 = of_nat (0x80 + q3)"
  have u: "unat b1 = 0xE0 + q1" "unat b2 = 0x80 + q2" "unat b3 = 0x80 + q3"
    unfolding b1_def b2_def b3_def using q1 q(3,4) by (intro byte_of_nat; linarith)+
  let ?d1 = "\<lparr>code_point = q1, bytes_needed = 2,
            lower_boundary = (if q1 = 0 then 0xA0 else 0x80),
            upper_boundary = (if q1 = 0xD then 0x9F else 0xBF)\<rparr>"
  let ?d2 = "\<lparr>code_point = q1 * 0x40 + q2, bytes_needed = Suc 0,
            lower_boundary = 0x80, upper_boundary = 0xBF\<rparr>"
  have lo: "lower_boundary ?d1 \<le> 0x80 + q2" using q q0 assms by (cases "q1 = 0") simp_all
  have hi: "0x80 + q2 \<le> upper_boundary ?d1" using q q0 assms by (cases "q1 = 0xD") simp_all
  have m2: "(0x80 + q2) mod 0x40 = q2" using mod_add_multiple [of q2 "0x40" 2] q(3) by simp
  have m3: "(0x80 + q3) mod 0x40 = q3" using mod_add_multiple [of q3 "0x40" 2] q(4) by simp
  have cp: "(q1 * 0x40 + q2) * 0x40 + q3 = cp" using q q0 by simp
  have s1: "utf8_step utf8_decoder_init b1 = ([], ?d1)"
    using utf8_step_lead [OF u(1), of utf8_decoder_init] utf8_lead_3 [OF q1]
    by (simp add: utf8_decoder_init_def)
  have s2: "utf8_step ?d1 b2 = ([], ?d2)"
    using utf8_step_continue [OF u(2) _ lo hi m2, of 1] by simp
  have s3: "utf8_step ?d2 b3 = (utf16_units cp, utf8_decoder_init)"
    using utf8_step_continue [OF u(3) _ _ _ m3, of ?d2 0] q(4) cp by simp
  have "utf8_bytes cp = [b1, b2, b3]"
    using assms unfolding b1_def b2_def b3_def by (simp only: utf8_bytes_def d q0) simp
  then show ?thesis
    by (simp add: s1 s2 s3 split: prod.splits)
qed

lemma utf8_write_4:
  assumes "0x10000 \<le> cp" "cp < 0x110000"
  shows "utf8_write utf8_decoder_init (utf8_bytes cp @ rest) =
     (utf16_units cp @ fst (utf8_write utf8_decoder_init rest),
      snd (utf8_write utf8_decoder_init rest))"
proof -
  obtain q0 q1 q2 q3 where q:
    "cp = q0 * 0x40000 + q1 * 0x1000 + q2 * 0x40 + q3" "q1 < 0x40" "q2 < 0x40" "q3 < 0x40"
    and d: "cp div 0x40000 = q0" "cp div 0x1000 mod 0x40 = q1" "cp div 0x40 mod 0x40 = q2"
      "cp mod 0x40 = q3"
    by (rule split_code_point [of cp])
  from q assms have q0: "q0 < 0x05" by linarith
  define b1 b2 b3 b4 :: byte
    where "b1 = of_nat (0xF0 + q0)" and "b2 = of_nat (0x80 + q1)"
      and "b3 = of_nat (0x80 + q2)" and "b4 = of_nat (0x80 + q3)"
  have u: "unat b1 = 0xF0 + q0" "unat b2 = 0x80 + q1" "unat b3 = 0x80 + q2" "unat b4 = 0x80 + q3"
    unfolding b1_def b2_def b3_def b4_def using q0 q(2,3,4) by (intro byte_of_nat; linarith)+
  define c2 c3 where "c2 = q0 * 0x40 + q1" and "c3 = c2 * 0x40 + q2"
  let ?d1 = "\<lparr>code_point = q0, bytes_needed = 3,
            lower_boundary = (if q0 = 0 then 0x90 else 0x80),
            upper_boundary = (if q0 = 4 then 0x8F else 0xBF)\<rparr>"
  let ?d2 = "\<lparr>code_point = c2, bytes_needed = 2,
            lower_boundary = 0x80, upper_boundary = 0xBF\<rparr>"
  let ?d3 = "\<lparr>code_point = c3, bytes_needed = Suc 0,
            lower_boundary = 0x80, upper_boundary = 0xBF\<rparr>"
  have lo: "lower_boundary ?d1 \<le> 0x80 + q1" using q assms by (cases "q0 = 0") simp_all
  have hi: "0x80 + q1 \<le> upper_boundary ?d1" using q assms by (cases "q0 = 4") simp_all
  have m1: "(0x80 + q1) mod 0x40 = q1" using mod_add_multiple [of q1 "0x40" 2] q(2) by simp
  have m2: "(0x80 + q2) mod 0x40 = q2" using mod_add_multiple [of q2 "0x40" 2] q(3) by simp
  have m3: "(0x80 + q3) mod 0x40 = q3" using mod_add_multiple [of q3 "0x40" 2] q(4) by simp
  have cp: "c3 * 0x40 + q3 = cp" using q by (simp add: c2_def c3_def)
  have s1: "utf8_step utf8_decoder_init b1 = ([], ?d1)"
    using utf8_step_lead [OF u(1), of utf8_decoder_init] utf8_lead_4 [OF q0]
    by (simp add: utf8_decoder_init_def)
  have s2: "utf8_step ?d1 b2 = ([], ?d2)"
    using utf8_step_continue [OF u(2) _ lo hi m1, of 2] by (simp add: c2_def)
  have s3: "utf8_step ?d2 b3 = ([], ?d3)"
    using utf8_step_continue [OF u(3) _ _ _ m2, of ?d2 1] q(3) by (simp add: c3_def)
  have s4: "utf8_step ?d3 b4 = (utf16_units cp, utf8_decoder_init)"
    using utf8_step_continue [OF u(4) _ _ _ m3, of ?d3 0] q(4) cp by simp
  have "utf8_bytes cp = [b1, b2, b3, b4]"
    using assms unfolding b1_def b2_def b3_def b4_def by (simp only: utf8_bytes_def d) simp
  then show ?thesis
    by (simp add: s1 s2 s3 s4 split: prod.splits)
qed

lemma utf8_write_scalar:
  assumes "cp < 0xD800 \<or> (0xE000 \<le> cp \<and> cp < 0x110000)"
  shows "utf8_write utf8_decoder_init (utf8_bytes cp @ rest) =
     (utf16_units cp @ fst (utf8_write utf8_decoder_init rest),
      snd (utf8_write utf8_decoder_init rest))"
proof -
  consider "cp < 0x80" | "0x80 \<le> cp \<and> cp < 0x800"
    | "0x800 \<le> cp \<and> cp < 0x10000" | "0x10000 \<le> cp \<and> cp < 0x110000"
    using assms by linarith
  then show ?thesis
  proof cases
    case 1 then show ?thesis by (rule utf8_write_1)
  next
    case 2 then show ?thesis by (simp add: utf8_write_2)
  next
    case 3 with assms show ?thesis by (intro utf8_write_3) linarith+
  next
    case 4 then show ?thesis by (simp add: utf8_write_4)
  qed
qed

lemma utf16_units_unit:
  "utf16_units (unat (u::u16)) = [u]"
proof -
  have "unat u < 0x10000" using unsigned_less [of u, where ?'a = nat] by simp
  then show ?thesis by (simp add: utf16_units_def)
qed

lemma surrogate_pair:
  assumes "is_high_surrogate u" "is_low_surrogate v"
  shows "0x10000 \<le> code_point_of_pair u v" "code_point_of_pair u v < 0x110000"
    "utf16_units (code_point_of_pair u v) = [u, v]"
proof -
  from assms have u: "0xD800 \<le> unat u" "unat u \<le> 0xDBFF"
    and v: "0xDC00 \<le> unat v" "unat v \<le> 0xDFFF"
    by (simp_all add: is_high_surrogate_def is_low_surrogate_def word_le_nat_alt)
  define a where "a = unat u - 0xD800"
  define b where "b = unat v - 0xDC00"
  have a: "unat u = 0xD800 + a" "a < 0x400" and b: "unat v = 0xDC00 + b" "b < 0x400"
    using u v by (simp_all add: a_def b_def)
  have cp: "code_point_of_pair u v = 0x10000 + (a * 0x400 + b)"
    by (simp add: code_point_of_pair_def a_def b_def)
  show "0x10000 \<le> code_point_of_pair u v" by (simp add: cp)
  show "code_point_of_pair u v < 0x110000" using a(2) b(2) by (simp add: cp)
  have "(a * 0x400 + b) div 0x400 = a" "(a * 0x400 + b) mod 0x400 = b"
    using b(2) by simp_all
  then have "utf16_units (code_point_of_pair u v) = [of_nat (unat u), of_nat (unat v)]"
    by (simp add: utf16_units_def cp a(1) b(1))
  then show "utf16_units (code_point_of_pair u v) = [u, v]" by simp
qed

lemma not_surrogate_scalar:
  assumes "\<not> is_high_surrogate u" "\<not> is_low_surrogate u"
  shows "unat u < 0xD800 \<or> (0xE000 \<le> unat u \<and> unat u < 0x110000)"
proof -
  have "unat u < 0x10000" using unsigned_less [of u, where ?'a = nat] by simp
  with assms show ?thesis
    by (simp add: is_high_surrogate_def is_low_surrogate_def word_le_nat_alt) linarith
qed

lemma utf8_write_utf8_encode:
  "isWellFormed s \<Longrightarrow> utf8_write utf8_decoder_init (utf8_encode s) = (s, utf8_decoder_init)"
proof (induction s rule: utf8_encode.induct)
  case 1
  then show ?case by simp
next
  case (2 u)
  then have "unat u < 0xD800 \<or> (0xE000 \<le> unat u \<and> unat u < 0x110000)"
    by (simp add: not_surrogate_scalar)
  from utf8_write_scalar [OF this, of "[]"] 2 show ?case
    by (simp add: utf16_units_unit)
next
  case (3 u v us)
  show ?case
  proof (cases "is_high_surrogate u")
    case True
    with 3 have low: "is_low_surrogate v" and wf: "isWellFormed us" by simp_all
    have "code_point_of_pair u v < 0xD800
        \<or> (0xE000 \<le> code_point_of_pair u v \<and> code_point_of_pair u v < 0x110000)"
      using surrogate_pair(1,2) [OF True low] by linarith
    from utf8_write_scalar [OF this, of "utf8_encode us"] True low wf 3 show ?thesis
      by (simp add: surrogate_pair)
  next
    case False
    with 3 have nl: "\<not> is_low_surrogate u" and wf: "isWellFormed (v # us)" by simp_all
    from utf8_write_scalar [OF not_surrogate_scalar [OF False nl], of "utf8_encode (v # us)"]
      False nl wf 3 show ?thesis
      by (simp add: utf16_units_unit)
  qed
qed

lemma utf8_decode_utf8_encode: "isWellFormed s \<Longrightarrow> utf8_decode (utf8_encode s) = s"
  by (simp add: utf8_decode_def utf8_write_utf8_encode utf8_end_def)
     (simp add: utf8_decoder_init_def)

section \<open>Loading the module\<close>

lemma length_be_bytes [simp]: "length (be_bytes n x) = n"
  by (simp add: be_bytes_def)

lemma length_sha512: "length (sha512 m) = 64"
proof -
  obtain a b c d e f g h
    where "foldl sha512_block H512 (chunks 128 (sha512_pad m)) = (a, b, c, d, e, f, g, h)"
    by (metis prod_cases3)
  then show ?thesis by (simp add: sha512_def)
qed

lemma length_sha512_hex: "length (sha512_hex s) = 128"
  by (simp add: sha512_hex_def length_hex_encode length_sha512)

lemma sha512_hex_ascii: "list_all (\<lambda>c. c < 0x80) (sha512_hex s)"
  by (simp add: sha512_hex_def hex_encode_ascii)

lemma substring_0: "substring 0 n s = take n s"
  by (simp add: substring_def Let_def min_def)

lemma encryption_js_Inr:
  "encryption_js cfg = Inr m \<longleftrightarrow>
     (\<exists>sk siv meth. secret_key cfg = Str sk \<and> secret_iv cfg = Str siv
        \<and> ecnryption_method cfg = Str meth \<and> sk \<noteq> [] \<and> siv \<noteq> [] \<and> meth \<noteq> []
        \<and> m = \<lparr>cipher_method = meth, key = take 32 (sha512_hex sk),
                 encryptionIV = take 16 (sha512_hex siv)\<rparr>)"
  by (cases "secret_key cfg"; cases "secret_iv cfg"; cases "ecnryption_method cfg")
     (auto simp: encryption_js_def substring_0)

lemma encryption_js_Inl:
  "encryption_js cfg = Inl e \<longleftrightarrow>
     e = required_error
       \<and> (falsy (secret_key cfg) \<or> falsy (secret_iv cfg) \<or> falsy (ecnryption_method cfg))"
  by (cases "secret_key cfg"; cases "secret_iv cfg"; cases "ecnryption_method cfg")
     (auto simp: encryption_js_def)

lemma readme_loads: "encryption_js (config_js readme_env) = Inr readme_module"
  by (simp add: encryption_js_Inr config_js_def readme_env_def readme_module_def substring_0
        ascii_def)

lemma readme_valid: "valid_config (config_js readme_env)"
  by (simp add: valid_config_def config_js_def readme_env_def aes_256_cbc_def ascii_def)

text \<open>What the cipher objects need of a module: the modelled method, a key of 32 and an
  IV of 16 ASCII characters.\<close>

lemma module_of_valid_config:
  assumes "encryption_js cfg = Inr m" "valid_config cfg"
  shows "cipher_method m = aes_256_cbc"
    and "length (utf8_encode (key m)) = 32"
    and "length (utf8_encode (encryptionIV m)) = 16"
proof -
  from assms(1) obtain sk siv meth where
    m: "m = \<lparr>cipher_method = meth, key = take 32 (sha512_hex sk),
              encryptionIV = take 16 (sha512_hex siv)\<rparr>"
    and meth: "ecnryption_method cfg = Str meth"
    unfolding encryption_js_Inr by blast
  from assms(2) meth show "cipher_method m = aes_256_cbc"
    by (simp add: valid_config_def m)
  have "list_all (\<lambda>c. c < 0x80) (take 32 (sha512_hex sk))"
    using sha512_hex_ascii [of sk] by (auto simp: list_all_iff dest: in_set_takeD)
  then show "length (utf8_encode (key m)) = 32"
    by (simp add: m utf8_encode_ascii length_sha512_hex)
  have "list_all (\<lambda>c. c < 0x80) (take 16 (sha512_hex siv))"
    using sha512_hex_ascii [of siv] by (auto simp: list_all_iff dest: in_set_takeD)
  then show "length (utf8_encode (encryptionIV m)) = 16"
    by (simp add: m utf8_encode_ascii length_sha512_hex)
qed

lemma serve_eq: "serve m rs = (map (router m) rs, m)"
  by (induction rs) (simp_all add: handle_def)

section \<open>Blocks, padding and CBC\<close>

lemma chunks_Nil [simp]: "chunks n [] = []"
  by (simp add: chunks.simps)

lemma chunks_step: "0 < n \<Longrightarrow> xs \<noteq> [] \<Longrightarrow> chunks n xs = take n xs # chunks n (drop n xs)"
  by (subst chunks.simps) simp

lemma concat_chunks: "0 < n \<Longrightarrow> concat (chunks n xs) = xs"
proof (induction n xs rule: chunks.induct)
  case (1 n xs)
  then show ?case by (cases "xs = []") (simp_all add: chunks_step)
qed

lemma chunks_block: "0 < n \<Longrightarrow> length b = n \<Longrightarrow> chunks n (b @ xs) = b # chunks n xs"
  by (cases "b = []") (simp_all add: chunks_step)

lemma chunks_concat:
  "0 < n \<Longrightarrow> \<forall>b\<in>set bs. length b = n \<Longrightarrow> chunks n (concat bs) = bs"
  by (induction bs) (simp_all add: chunks_block)

lemma chunks_append:
  "0 < n \<Longrightarrow> length a mod n = 0 \<Longrightarrow> chunks n (a @ b) = chunks n a @ chunks n b"
proof (induction n a rule: chunks.induct)
  case (1 n a)
  show ?case
  proof (cases "a = []")
    case True
    then show ?thesis by simp
  next
    case False
    with 1(2,3) have len: "n \<le> length a"
      by (metis length_0_conv mod_less not_le)
    then have m: "length (drop n a) mod n = 0"
      using 1(3) by (simp add: le_mod_geq)
    have "chunks n (a @ b) = take n (a @ b) # chunks n (drop n (a @ b))"
      using False 1(2) by (intro chunks_step) simp_all
    also have "\<dots> = take n a # chunks n (drop n a @ b)"
      using len by simp
    also have "chunks n (drop n a @ b) = chunks n (drop n a) @ chunks n b"
      using 1(1) [OF _ 1(2) m] False 1(2) by blast
    also have "take n a # chunks n (drop n a) @ chunks n b = chunks n a @ chunks n b"
      using chunks_step [OF 1(2) False] by simp
    finally show ?thesis .
  qed
qed

lemma chunks_lengths:
  "0 < n \<Longrightarrow> length xs mod n = 0 \<Longrightarrow> \<forall>c\<in>set (chunks n xs). length c = n"
proof (induction n xs rule: chunks.induct)
  case (1 n xs)
  show ?case
  proof (cases "xs = []")
    case True
    then show ?thesis by simp
  next
    case False
    with 1(2,3) have len: "n \<le> length xs"
      by (metis length_0_conv mod_less not_le)
    then have m: "length (drop n xs) mod n = 0"
      using 1(3) by (simp add: le_mod_geq)
    have st: "chunks n xs = take n xs # chunks n (drop n xs)"
      using False 1(2) by (rule chunks_step [rotated])
    have ih: "\<forall>c\<in>set (chunks n (drop n xs)). length c = n"
      using 1(1) [OF _ 1(2) m] False 1(2) by blast
    show ?thesis
      unfolding st
    proof
      fix c assume "c \<in> set (take n xs # chunks n (drop n xs))"
      then consider "c = take n xs" | "c \<in> set (chunks n (drop n xs))" by auto
      then show "length c = n"
      proof cases
        case 1
        with len show ?thesis by simp
      next
        case 2
        with ih show ?thesis by (rule bspec)
      qed
    qed
  qed
qed

lemma length_chunks: "0 < n \<Longrightarrow> length xs mod n = 0 \<Longrightarrow> length (chunks n xs) = length xs div n"
proof (induction n xs rule: chunks.induct)
  case (1 n xs)
  show ?case
  proof (cases "xs = []")
    case True
    then show ?thesis by simp
  next
    case False
    with 1(2,3) have len: "n \<le> length xs"
      by (metis length_0_conv mod_less not_le)
    then have m: "length (drop n xs) mod n = 0"
      using 1(3) by (simp add: le_mod_geq)
    have st: "chunks n xs = take n xs # chunks n (drop n xs)"
      using False 1(2) by (rule chunks_step [rotated])
    have "length (chunks n (drop n xs)) = length (drop n xs) div n"
      using 1(1) [OF _ 1(2) m] False 1(2) by blast
    with len 1(2) show ?thesis
      unfolding st by (simp add: le_div_geq)
  qed
qed

lemma xor_block_add_round_key: "xor_block a b = add_round_key a b"
  by (simp add: xor_block_def add_round_key_def)

lemma length_xor_block [simp]: "length (xor_block a b) = 16"
  by (simp add: xor_block_add_round_key)

lemma xor_block_twice: "length a = 16 \<Longrightarrow> xor_block (xor_block a b) b = a"
  by (simp add: xor_block_add_round_key add_round_key_twice)

lemma cbc_decrypt_encrypt_blocks:
  "\<forall>p\<in>set ps. length p = 16 \<Longrightarrow>
   cbc_decrypt_blocks rks iv (cbc_encrypt_blocks rks iv ps) = ps"
  by (induction ps arbitrary: iv) (simp_all add: Let_def aes_inv_cipher_cipher xor_block_twice)

lemma cbc_encrypt_blocks_append:
  "cbc_encrypt_blocks rks iv (ps @ qs) =
     cbc_encrypt_blocks rks iv ps
       @ cbc_encrypt_blocks rks (last (iv # cbc_encrypt_blocks rks iv ps)) qs"
  by (induction ps arbitrary: iv) (simp_all add: Let_def)

lemma cbc_decrypt_blocks_append:
  "cbc_decrypt_blocks rks iv (cs @ ds) =
     cbc_decrypt_blocks rks iv cs @ cbc_decrypt_blocks rks (last (iv # cs)) ds"
  by (induction cs arbitrary: iv) simp_all

lemma cbc_encrypt_blocks_lengths:
  "length (cbc_encrypt_blocks rks iv ps) = length ps"
  "\<forall>c\<in>set (cbc_encrypt_blocks rks iv ps). length c = 16"
  by (induction ps arbitrary: iv) (simp_all add: Let_def)

lemma cbc_decrypt_blocks_lengths:
  "length (cbc_decrypt_blocks rks iv cs) = length cs"
  "\<forall>p\<in>set (cbc_decrypt_blocks rks iv cs). length p = 16"
  by (induction cs arbitrary: iv) simp_all

lemma length_concat_blocks: "\<forall>b\<in>set bs. length b = n \<Longrightarrow> length (concat bs) = n * length bs"
  by (induction bs) simp_all

subsection \<open>Padding\<close>

lemma pad_length_bounds: "0 < 16 - n mod 16" "16 - n mod 16 \<le> (16::nat)"
  by simp_all

lemma length_pkcs7_pad: "length (pkcs7_pad p) = 16 * (length p div 16 + 1)"
proof -
  define q r where "q = length p div 16" and "r = length p mod 16"
  have "q * 16 + r = length p" "r < 16" by (simp_all add: q_def r_def)
  then have "length p + (16 - r) = 16 * (q + 1)" by arith
  then show ?thesis by (simp add: pkcs7_pad_def Let_def q_def r_def)
qed

lemma pkcs7_unpad_pad: "pkcs7_unpad (pkcs7_pad p) = Some p"
proof -
  define n where "n = 16 - length p mod 16"
  have n: "0 < n" "n \<le> 16" by (simp_all add: n_def)
  then have u: "unat (of_nat n :: byte) = n" by (simp add: unat_of_nat)
  have pad: "pkcs7_pad p = p @ replicate n (of_nat n)"
    by (simp add: pkcs7_pad_def n_def Let_def)
  have l: "last (p @ replicate n (of_nat n :: byte)) = of_nat n"
    using n by (cases n) simp_all
  show ?thesis
    using n by (simp add: pkcs7_unpad_def pad l u Let_def list_all_iff)
qed

section \<open>The cipher objects against the reference descriptions\<close>

lemma evp_cipher_init_ok:
  assumes "cipher_method m = aes_256_cbc" "length (utf8_encode (key m)) = 32"
    "length (utf8_encode (encryptionIV m)) = 16"
  shows "evp_cipher_init (cipher_method m) (key m) (encryptionIV m) =
     Inr \<lparr>round_keys = key_expansion (utf8_encode (key m)),
          chain = utf8_encode (encryptionIV m), pending = []\<rparr>"
  using assms by (simp add: evp_cipher_init_def)

lemma whole_blocks:
  fixes d :: "'a list"
  defines "n \<equiv> length d div 16 * 16"
  shows "length (take n d) = n" "n mod 16 = 0" "length (drop n d) = length d mod 16"
proof -
  have le: "n \<le> length d" by (simp add: n_def)
  then show "length (take n d) = n" by simp
  show "n mod 16 = 0" by (simp add: n_def)
  have "length d = n + length d mod 16" by (simp add: n_def)
  then show "length (drop n d) = length d mod 16" by simp
qed

text \<open>One update and the final block give the CBC encryption of the padded data.\<close>

lemma evp_encrypt_stream:
  assumes "evp_encrypt_update \<lparr>round_keys = key_expansion k, chain = iv, pending = []\<rparr> d
             = (out, c')"
  shows "out @ evp_encrypt_final c' = aes_256_cbc_encrypt k iv d"
proof -
  define n where "n = length d div 16 * 16"
  define rks where "rks = key_expansion k"
  define pad where "pad = replicate (16 - length d mod 16) (of_nat (16 - length d mod 16) :: byte)"
  define cs where "cs = cbc_encrypt_blocks rks iv (chunks 16 (take n d))"
  have w: "length (take n d) = n" "n mod 16 = 0" "length (drop n d) = length d mod 16"
    unfolding n_def by (rule whole_blocks)+
  from assms have out: "out = concat cs"
    and c': "c' = \<lparr>round_keys = rks, chain = last (iv # cs), pending = drop n d\<rparr>"
    by (simp_all add: evp_encrypt_update_def Let_def n_def rks_def cs_def del: last.simps)
  have "evp_encrypt_final c' =
      aes_cipher rks (xor_block (drop n d @ replicate (16 - length (drop n d))
        (of_nat (16 - length (drop n d)))) (last (iv # cs)))"
    unfolding evp_encrypt_final_def c' Let_def by (simp only: cipher_ctx.simps)
  then have fin: "evp_encrypt_final c' = aes_cipher rks (xor_block (drop n d @ pad) (last (iv # cs)))"
    by (simp only: w(3) pad_def)
  have "length (drop n d @ pad) = 16"
    by (simp add: w pad_def del: length_drop)
  then have last_chunk: "chunks 16 (drop n d @ pad) = [drop n d @ pad]"
    using chunks_block [of 16 "drop n d @ pad" "[]"] by simp
  have "pkcs7_pad d = take n d @ (drop n d @ pad)"
    by (simp add: pkcs7_pad_def pad_def Let_def)
  then have "chunks 16 (pkcs7_pad d) = chunks 16 (take n d) @ [drop n d @ pad]"
    using chunks_append [of 16 "take n d" "drop n d @ pad"] w last_chunk by simp
  then have "cbc_encrypt_blocks rks iv (chunks 16 (pkcs7_pad d))
      = cs @ [aes_cipher rks (xor_block (drop n d @ pad) (last (iv # cs)))]"
    by (simp add: cbc_encrypt_blocks_append cs_def Let_def)
  then show ?thesis
    by (simp add: aes_256_cbc_encrypt_def rks_def [symmetric] out fin)
qed

lemma pkcs7_unpad_last_block:
  assumes "length p = 16"
  shows "pkcs7_unpad (out @ p) =
     (let n = unat (last p)
      in if n = 0 \<or> 16 < n then None
         else if list_all (\<lambda>b. b = last p) (drop (16 - n) p) then Some (out @ take (16 - n) p)
         else None)"
proof -
  from assms have ne: "p \<noteq> []" by auto
  then have l: "last (out @ p) = last p" by simp
  show ?thesis
  proof (cases "unat (last p) = 0 \<or> 16 < unat (last p)")
    case True
    then show ?thesis by (auto simp: pkcs7_unpad_def l Let_def)
  next
    case False
    then have n: "unat (last p) \<le> 16" by simp
    then have "length (out @ p) - unat (last p) = length out + (16 - unat (last p))"
      using assms by simp
    with False n assms ne show ?thesis
      by (simp add: pkcs7_unpad_def l Let_def)
  qed
qed

text \<open>One update and the final block give the CBC decryption with its two failures.\<close>

lemma evp_decrypt_stream:
  assumes "evp_decrypt_update \<lparr>round_keys = key_expansion k, chain = iv, pending = []\<rparr> c
             = (out, c')"
  shows "(case evp_decrypt_final c' of Inl e \<Rightarrow> Inl e | Inr p \<Rightarrow> Inr (out @ p))
           = aes_256_cbc_decrypt k iv c"
proof (cases "c = [] \<or> length c mod 16 \<noteq> 0")
  case True
  define n where "n = length c div 16 * 16"
  have w: "length (drop n c) = length c mod 16"
    unfolding n_def by (rule whole_blocks)
  from assms True have "pending c' = drop n c"
    by (auto simp: evp_decrypt_update_def Let_def n_def)
  with w True have "length (pending c') \<noteq> 16"
    by (metis mod_less_divisor zero_less_numeral less_irrefl)
  with True show ?thesis
    by (simp add: evp_decrypt_final_def aes_256_cbc_decrypt_def)
next
  case False
  define n where "n = length c - 16"
  define rks where "rks = key_expansion k"
  define blocks where "blocks = chunks 16 (take n c)"
  define p where "p = xor_block (aes_inv_cipher rks (drop n c)) (last (iv # blocks))"
  from False have len: "16 \<le> length c"
    by (metis length_0_conv mod_less not_le)
  then have w: "length (take n c) mod 16 = 0" "length (drop n c) = 16"
    using False by (simp_all add: n_def le_mod_geq)
  have "evp_decrypt_update \<lparr>round_keys = key_expansion k, chain = iv, pending = []\<rparr> c =
      (concat (cbc_decrypt_blocks rks iv blocks),
       \<lparr>round_keys = rks, chain = last (iv # blocks), pending = drop n c\<rparr>)"
    using False
    by (simp add: evp_decrypt_update_def Let_def n_def rks_def blocks_def del: last.simps)
  with assms have out: "out = concat (cbc_decrypt_blocks rks iv blocks)"
    and c': "c' = \<lparr>round_keys = rks, chain = last (iv # blocks), pending = drop n c\<rparr>"
    by simp_all
  have fin: "evp_decrypt_final c' =
      (let m = unat (last p)
       in if m = 0 \<or> 16 < m then Inl bad_decrypt
          else if list_all (\<lambda>b. b = last p) (drop (16 - m) p) then Inr (take (16 - m) p)
          else Inl bad_decrypt)"
    by (simp add: evp_decrypt_final_def c' w p_def Let_def del: last.simps length_drop)
  have last_chunk: "chunks 16 (drop n c) = [drop n c]"
    using chunks_block [of 16 "drop n c" "[]"] w by simp
  have "chunks 16 c = chunks 16 (take n c @ drop n c)" by simp
  also have "\<dots> = blocks @ [drop n c]"
    using chunks_append [of 16 "take n c" "drop n c"] w last_chunk
    by (simp add: blocks_def del: append_take_drop_id)
  finally have "concat (cbc_decrypt_blocks rks iv (chunks 16 c)) = out @ p"
    by (simp add: cbc_decrypt_blocks_append out p_def)
  moreover have "length p = 16" by (simp add: p_def)
  ultimately show ?thesis
    using False
    by (simp add: aes_256_cbc_decrypt_def rks_def [symmetric] fin pkcs7_unpad_last_block Let_def)
qed

text \<open>Decryption undoes encryption.\<close>

lemma aes_256_cbc_encrypt_length:
  "length (aes_256_cbc_encrypt k iv d) = 16 * (length d div 16 + 1)"
proof -
  have "length (pkcs7_pad d) mod 16 = 0" by (simp add: length_pkcs7_pad)
  then have "length (chunks 16 (pkcs7_pad d)) = length d div 16 + 1"
    by (simp add: length_chunks length_pkcs7_pad)
  then show ?thesis
    using length_concat_blocks [OF cbc_encrypt_blocks_lengths(2),
        of "key_expansion k" iv "chunks 16 (pkcs7_pad d)"]
    by (simp add: aes_256_cbc_encrypt_def cbc_encrypt_blocks_lengths(1))
qed

lemma aes_256_cbc_decrypt_encrypt:
  "aes_256_cbc_decrypt k iv (aes_256_cbc_encrypt k iv d) = Inr d"
proof -
  let ?rks = "key_expansion k"
  let ?ps = "chunks 16 (pkcs7_pad d)"
  let ?c = "aes_256_cbc_encrypt k iv d"
  have len: "length ?c = 16 * (length d div 16 + 1)" by (rule aes_256_cbc_encrypt_length)
  then have ne: "?c \<noteq> []" "length ?c mod 16 = 0" by auto
  have ps: "\<forall>p\<in>set ?ps. length p = 16"
    by (rule chunks_lengths) (simp_all add: length_pkcs7_pad)
  have "chunks 16 ?c = cbc_encrypt_blocks ?rks iv ?ps"
    unfolding aes_256_cbc_encrypt_def
    by (rule chunks_concat) (simp_all add: cbc_encrypt_blocks_lengths(2))
  then have "concat (cbc_decrypt_blocks ?rks iv (chunks 16 ?c)) = pkcs7_pad d"
    by (simp add: cbc_decrypt_encrypt_blocks [OF ps] concat_chunks)
  with ne show ?thesis
    by (simp add: aes_256_cbc_decrypt_def pkcs7_unpad_pad)
qed

section \<open>Claim C2: key derivation\<close>

text \<open>
  C2. When the module loads, \<open>key\<close> is exactly the first 32 characters of the
  lowercase hexadecimal SHA-512 digest of the UTF-8 bytes of \<open>secret_key\<close>, and
  \<open>encryptionIV\<close> exactly the first 16 characters of that of \<open>secret_iv\<close>, each
  secret hashed on its own; the cipher takes them as 32 and 16 ASCII bytes, one byte a
  hex character. The result is a function of the two secrets alone: two loads with the
  same secrets give the same key and IV, whatever the rest of the configuration.
\<close>

theorem key_derivation:
  assumes "encryption_js cfg = Inr m"
  shows "\<exists>sk siv. secret_key cfg = Str sk \<and> secret_iv cfg = Str siv
      \<and> key m = take 32 (hex_encode (sha512 (utf8_encode sk)))
      \<and> encryptionIV m = take 16 (hex_encode (sha512 (utf8_encode siv)))
      \<and> length (key m) = 32 \<and> length (encryptionIV m) = 16
      \<and> utf8_encode (key m) = map ucast (key m)
      \<and> utf8_encode (encryptionIV m) = map ucast (encryptionIV m)
      \<and> set (key m) \<union> set (encryptionIV m) \<subseteq> set (ascii ''0123456789abcdef'')
      \<and> (\<forall>cfg' m'. encryption_js cfg' = Inr m' \<and> secret_key cfg' = secret_key cfg
            \<and> secret_iv cfg' = secret_iv cfg
          \<longrightarrow> key m' = key m \<and> encryptionIV m' = encryptionIV m)"
proof -
  from assms obtain sk siv meth where
    cfg: "secret_key cfg = Str sk" "secret_iv cfg = Str siv"
    and m: "m = \<lparr>cipher_method = meth, key = take 32 (sha512_hex sk),
              encryptionIV = take 16 (sha512_hex siv)\<rparr>"
    unfolding encryption_js_Inr by blast
  have a: "list_all (\<lambda>c. c < 0x80) (take n (sha512_hex s))" for n s
    using sha512_hex_ascii [of s] by (auto simp: list_all_iff dest: in_set_takeD)
  have d: "set (take n (sha512_hex s)) \<subseteq> set (ascii ''0123456789abcdef'')" for n s
    using hex_encode_digits [of "sha512 (utf8_encode s)"] set_take_subset [of n "sha512_hex s"]
    unfolding sha512_hex_def by (rule subset_trans [rotated])
  have "key m' = key m \<and> encryptionIV m' = encryptionIV m"
    if "encryption_js cfg' = Inr m'" "secret_key cfg' = secret_key cfg"
      "secret_iv cfg' = secret_iv cfg" for cfg' m'
    using that cfg m unfolding encryption_js_Inr by auto
  with cfg m a d show ?thesis
    by (simp add: sha512_hex_def [symmetric] length_sha512_hex utf8_encode_ascii del: set_simps)
       blast
qed

theorem key_derivation_witness:
  "key readme_module = take 32 (hex_encode (sha512 (utf8_encode (ascii ''secretKey''))))
   \<and> encryptionIV readme_module = take 16 (hex_encode (sha512 (utf8_encode (ascii ''secretIV''))))
   \<and> length (key readme_module) = 32
   \<and> length (encryptionIV readme_module) = 16"
  using key_derivation [OF readme_loads]
  by (elim exE conjE) (simp add: config_js_def readme_env_def)

section \<open>Claim C6: the start-up guard\<close>

text \<open>
  C6. If one of the three required configuration values (\<open>SECRET_KEY\<close>,
  \<open>SECRET_IV\<close>, \<open>ECNRYPTION_METHOD\<close>) is missing or empty, loading
  \<open>encryption.js\<close> throws, and the process ends with that error without serving any
  request, whatever requests would have come. If all three are present and non-empty,
  loading succeeds and every request is served, each with a response or its own
  exception.
\<close>

theorem startup_guard:
  "(if falsy (SECRET_KEY e) \<or> falsy (SECRET_IV e) \<or> falsy (ECNRYPTION_METHOD e)
    then encryption_js (config_js e) = Inl required_error
       \<and> server_js e rs = Inl required_error
    else (\<exists>m. encryption_js (config_js e) = Inr m
       \<and> server_js e rs = Inr (map (router m) rs)))"
proof (cases "falsy (SECRET_KEY e) \<or> falsy (SECRET_IV e) \<or> falsy (ECNRYPTION_METHOD e)")
  case True
  then have "encryption_js (config_js e) = Inl required_error"
    by (simp add: encryption_js_Inl config_js_def)
  with True show ?thesis by (simp add: server_js_def)
next
  case False
  then have "\<nexists>err. encryption_js (config_js e) = Inl err"
    by (simp add: encryption_js_Inl config_js_def)
  then obtain m where m: "encryption_js (config_js e) = Inr m"
    by (cases "encryption_js (config_js e)") auto
  with False show ?thesis by (simp add: server_js_def serve_eq)
qed

theorem startup_guard_witness:
  "server_js (readme_env\<lparr>SECRET_IV := Str []\<rparr>) [POST_encrypt (\<lambda>_. Str [])]
     = Inl required_error
   \<and> server_js (readme_env\<lparr>ECNRYPTION_METHOD := Undefined\<rparr>) [] = Inl required_error
   \<and> server_js readme_env [] = Inr []"
  using startup_guard [of "readme_env\<lparr>SECRET_IV := Str []\<rparr>" "[POST_encrypt (\<lambda>_. Str [])]"]
    startup_guard [of "readme_env\<lparr>ECNRYPTION_METHOD := Undefined\<rparr>" "[]"]
    startup_guard [of readme_env "[]"]
  by (simp add: readme_env_def ascii_def)

end
